theory Spec2Isabelle
  imports Main "HOL-Library.AList"
begin

section \<open>RouteBus: the bus over its in-memory transport\<close>

text \<open>
  The development embeds \<^verbatim>\<open>createInMemoryTransport\<close> (transports/in-memory.ts) and
  \<^verbatim>\<open>createRouteBus\<close> (index.ts) built on it, which is what \<^verbatim>\<open>createRouteBus()\<close> gives
  when no transport option is passed.

  \<^item> An event is a key of the event map: a string, a number or a symbol. \<open>Sym i d\<close> is
    the symbol number \<open>i\<close>, made with the description \<open>d\<close>; numbers are the natural
    numbers. The transport's map has the events themselves as keys, the map
    \<^verbatim>\<open>unsubscribeFunctions\<close> of the bus has \<^verbatim>\<open>String(event)\<close>, which different events
    share (the number 1 and the string \<^verbatim>\<open>'1'\<close>, two symbols with one description).
  \<^item> A payload is a value of an arbitrary type \<open>'p\<close>: the bus stores and passes it on and
    never looks inside.
  \<^item> A handler is a function with an identity. \<open>Fn n\<close> is the caller's function number
    \<open>n\<close>; \<open>OnceWrapper k n\<close> is the closure \<^verbatim>\<open>wrappedHandler\<close> made by the \<open>k\<close>-th call of
    \<^verbatim>\<open>once\<close>, which captured the caller's function \<open>n\<close> and the variable
    \<^verbatim>\<open>unsubscribe\<close> of that call (cell \<open>k\<close> of \<open>onceCells\<close>).
  \<^item> A JavaScript \<^verbatim>\<open>Map\<close> is an association list in insertion order
    (\<open>map_of\<close> is \<^verbatim>\<open>get\<close>, \<open>AList.update\<close> is \<^verbatim>\<open>set\<close>, \<open>AList.delete\<close> is
    \<^verbatim>\<open>delete\<close>); a \<^verbatim>\<open>Set\<close> is a list in insertion order.
  \<^item> A closure is the data it captured: the function returned by the transport's
    \<^verbatim>\<open>subscribe\<close> captured \<^verbatim>\<open>event\<close> and \<^verbatim>\<open>handler\<close>; the one returned by \<^verbatim>\<open>on\<close>
    captured the transport's closure, \<^verbatim>\<open>eventKey\<close> and \<^verbatim>\<open>handler\<close>.
\<close>

datatype event = Str string | Num nat | Sym nat string

datatype handler = Fn nat | OnceWrapper nat nat

datatype tunsub = TransportUnsub event handler

datatype unsub = BusUnsub tunsub string handler

datatype completion = Normal | Thrown

text \<open>
  What the caller's code does is not part of the library. A function body of the caller
  is a list of commands, run in order: calls of the bus (\<^verbatim>\<open>on\<close>, \<^verbatim>\<open>off\<close>, a call of the
  function that \<^verbatim>\<open>on\<close> or \<^verbatim>\<open>once\<close> returned for an event and a handler, \<^verbatim>\<open>enqueue\<close>,
  \<^verbatim>\<open>clear\<close>) and \<^verbatim>\<open>throw\<close>. Handlers do not call \<^verbatim>\<open>emit\<close>, \<^verbatim>\<open>drain\<close> or \<^verbatim>\<open>once\<close>
  themselves; a drain processor may also call \<^verbatim>\<open>emit\<close>.
\<close>

datatype 'p cmd =
    On event nat
  | Off event nat
  | Unsubscribe event handler
  | Enqueue event 'p
  | Clear
  | Throw

datatype 'p pcmd = Do "'p cmd" | Emit event 'p

type_synonym 'p program = "nat \<Rightarrow> 'p \<Rightarrow> 'p cmd list"

type_synonym 'p processor = "event \<Rightarrow> 'p \<Rightarrow> 'p pcmd list"

text \<open>
  The first four fields are the program's variables: \<^verbatim>\<open>listeners\<close> of the transport,
  \<^verbatim>\<open>unsubscribeFunctions\<close> and \<^verbatim>\<open>queue\<close> of the bus, and the \<^verbatim>\<open>unsubscribe\<close> variables
  of the calls of \<^verbatim>\<open>once\<close>. The others record what happened, and no operation reads them:
  \<open>delivered\<close> every call \<^verbatim>\<open>handler(payload)\<close> made by \<^verbatim>\<open>publish\<close>, \<open>emitted\<close> every call
  of \<^verbatim>\<open>emit\<close>, \<open>enqueued\<close> every call of \<^verbatim>\<open>enqueue\<close>, \<open>processed\<close> every call
  \<^verbatim>\<open>proc(item.event, item.payload)\<close> made by \<^verbatim>\<open>drain\<close>, \<open>closes\<close> and \<open>clears\<close> the
  number of calls of the transport's \<^verbatim>\<open>close\<close> and of \<^verbatim>\<open>clear\<close>, \<open>errors\<close> the number of
  rejected publishes handed to \<^verbatim>\<open>console.error\<close> by \<^verbatim>\<open>emit\<close>.
\<close>

record 'p bus =
  listeners :: "(event \<times> handler list) list"
  unsubscribeFunctions :: "(string \<times> (handler \<times> tunsub) list) list"
  queue :: "(event \<times> 'p) list"
  onceCells :: "unsub option list"
  delivered :: "(event \<times> handler \<times> 'p) list"
  emitted :: "(event \<times> 'p) list"
  enqueued :: "(event \<times> 'p) list"
  processed :: "(event \<times> 'p) list"
  closes :: nat
  clears :: nat
  errors :: nat

definition createRouteBus :: "'p bus" where
  "createRouteBus =
     \<lparr>listeners = [], unsubscribeFunctions = [], queue = [], onceCells = [],
      delivered = [], emitted = [], enqueued = [], processed = [],
      closes = 0, clears = 0, errors = 0\<rparr>"

text \<open>\<^verbatim>\<open>String(event)\<close>: a string is itself, a number is its decimal numeral, a symbol is
  \<^verbatim>\<open>Symbol(description)\<close>.\<close>

fun decimal :: "nat \<Rightarrow> string" where
  "decimal n =
     (if n < 10 then [''0123456789'' ! n]
      else decimal (n div 10) @ [''0123456789'' ! (n mod 10)])"

declare decimal.simps [simp del]

fun to_string :: "event \<Rightarrow> string" where
  "to_string (Str s) = s"
| "to_string (Num n) = decimal n"
| "to_string (Sym i d) = ''Symbol('' @ d @ '')''"

definition getEventKey :: "event \<Rightarrow> string" where
  "getEventKey event = to_string event"

subsection \<open>Sets in insertion order\<close>

definition set_add :: "'a \<Rightarrow> 'a list \<Rightarrow> 'a list" where
  "set_add x xs = (if x \<in> set xs then xs else xs @ [x])"

definition set_delete :: "'a \<Rightarrow> 'a list \<Rightarrow> 'a list" where
  "set_delete x xs = removeAll x xs"

subsection \<open>The in-memory transport\<close>

text \<open>\<^verbatim>\<open>subscribe\<close>: creates the event's set when it is missing, adds the handler, and
  returns the closure that removes it.\<close>

definition subscribe :: "event \<Rightarrow> handler \<Rightarrow> 'p bus \<Rightarrow> tunsub \<times> 'p bus" where
  "subscribe event handler s =
     (let ls = (if map_of (listeners s) event = None
                then AList.update event [] (listeners s) else listeners s);
          ls' = (case map_of ls event of
                   None \<Rightarrow> ls
                 | Some handlers \<Rightarrow> AList.update event (set_add handler handlers) ls)
      in (TransportUnsub event handler, s\<lparr>listeners := ls'\<rparr>))"

text \<open>The closure returned by \<^verbatim>\<open>subscribe\<close>: deletes the handler from the event's set and
  deletes the set from the map once it is empty.\<close>

fun call_tunsub :: "tunsub \<Rightarrow> 'p bus \<Rightarrow> 'p bus" where
  "call_tunsub (TransportUnsub event handler) s =
     (case map_of (listeners s) event of
        None \<Rightarrow> s
      | Some handlers \<Rightarrow>
          (let handlers' = set_delete handler handlers;
               ls = AList.update event handlers' (listeners s)
           in s\<lparr>listeners := (if length handlers' = 0 then AList.delete event ls else ls)\<rparr>))"

definition close :: "'p bus \<Rightarrow> 'p bus" where
  "close s = s\<lparr>listeners := [], closes := closes s + 1\<rparr>"

subsection \<open>The bus: registration\<close>

definition on :: "event \<Rightarrow> handler \<Rightarrow> 'p bus \<Rightarrow> unsub \<times> 'p bus" where
  "on event handler s =
     (let (unsubscribe, s1) = subscribe event handler s;
          eventKey = getEventKey event;
          fs = (if map_of (unsubscribeFunctions s1) eventKey = None
                then AList.update eventKey [] (unsubscribeFunctions s1)
                else unsubscribeFunctions s1);
          fs' = (case map_of fs eventKey of
                   None \<Rightarrow> fs
                 | Some eventHandlers \<Rightarrow>
                     AList.update eventKey (AList.update handler unsubscribe eventHandlers) fs)
      in (BusUnsub unsubscribe eventKey handler, s1\<lparr>unsubscribeFunctions := fs'\<rparr>))"

text \<open>The closure returned by \<^verbatim>\<open>on\<close>: calls the transport's closure, then deletes the
  handler's entry of \<^verbatim>\<open>unsubscribeFunctions\<close>, and the event's map once it is empty.\<close>

fun call_unsub :: "unsub \<Rightarrow> 'p bus \<Rightarrow> 'p bus" where
  "call_unsub (BusUnsub unsubscribe eventKey handler) s =
     (let s1 = call_tunsub unsubscribe s
      in case map_of (unsubscribeFunctions s1) eventKey of
           None \<Rightarrow> s1
         | Some eventHandlers \<Rightarrow>
             (let eventHandlers' = AList.delete handler eventHandlers;
                  fs = AList.update eventKey eventHandlers' (unsubscribeFunctions s1)
              in s1\<lparr>unsubscribeFunctions :=
                      (if length eventHandlers' = 0 then AList.delete eventKey fs else fs)\<rparr>))"

text \<open>\<^verbatim>\<open>once\<close>: a new variable \<^verbatim>\<open>unsubscribe\<close>, null at first; the wrapper is registered with
  \<^verbatim>\<open>on\<close>, and the variable then holds what \<^verbatim>\<open>on\<close> returned.\<close>

definition once :: "event \<Rightarrow> nat \<Rightarrow> 'p bus \<Rightarrow> unsub \<times> 'p bus" where
  "once event handler s =
     (let k = length (onceCells s);
          s0 = s\<lparr>onceCells := onceCells s @ [None]\<rparr>;
          wrappedHandler = OnceWrapper k handler;
          (unsubscribe, s1) = on event wrappedHandler s0
      in (unsubscribe, s1\<lparr>onceCells := (onceCells s1)[k := Some unsubscribe]\<rparr>))"

definition off :: "event \<Rightarrow> handler \<Rightarrow> 'p bus \<Rightarrow> 'p bus" where
  "off event handler s =
     (let eventKey = getEventKey event
      in case map_of (unsubscribeFunctions s) eventKey of
           None \<Rightarrow> s
         | Some eventHandlers \<Rightarrow>
             (case map_of eventHandlers handler of
                None \<Rightarrow> s
              | Some unsubscribe \<Rightarrow>
                  (let s1 = call_tunsub unsubscribe s;
                       eventHandlers' = AList.delete handler eventHandlers;
                       fs = AList.update eventKey eventHandlers' (unsubscribeFunctions s1)
                   in s1\<lparr>unsubscribeFunctions :=
                           (if length eventHandlers' = 0 then AList.delete eventKey fs
                            else fs)\<rparr>)))"

subsection \<open>The bus: queue and reset\<close>

definition enqueue :: "event \<Rightarrow> 'p \<Rightarrow> 'p bus \<Rightarrow> 'p bus" where
  "enqueue event payload s =
     s\<lparr>queue := queue s @ [(event, payload)], enqueued := enqueued s @ [(event, payload)]\<rparr>"

text \<open>\<^verbatim>\<open>clear\<close>: empties the queue, calls every stored closure (outer map, then inner map, in
  insertion order), empties \<^verbatim>\<open>unsubscribeFunctions\<close>, and calls the transport's
  \<^verbatim>\<open>close\<close>, which the in-memory transport has and which returns no promise.\<close>

definition clear :: "'p bus \<Rightarrow> 'p bus" where
  "clear s =
     (let s1 = s\<lparr>queue := [], clears := clears s + 1\<rparr>;
          s2 = fold call_tunsub
                 (concat (map (\<lambda>eventHandlers. map snd (snd eventHandlers))
                    (unsubscribeFunctions s1))) s1;
          s3 = s2\<lparr>unsubscribeFunctions := []\<rparr>
      in close s3)"

subsection \<open>The caller's code\<close>

fun exec_cmd :: "'p cmd \<Rightarrow> 'p bus \<Rightarrow> completion \<times> 'p bus" where
  "exec_cmd (On event n) s = (Normal, snd (on event (Fn n) s))"
| "exec_cmd (Off event n) s = (Normal, off event (Fn n) s)"
| "exec_cmd (Unsubscribe event h) s =
     (Normal, call_unsub (BusUnsub (TransportUnsub event h) (getEventKey event) h) s)"
| "exec_cmd (Enqueue event payload) s = (Normal, enqueue event payload s)"
| "exec_cmd Clear s = (Normal, clear s)"
| "exec_cmd Throw s = (Thrown, s)"

fun exec_cmds :: "'p cmd list \<Rightarrow> 'p bus \<Rightarrow> completion \<times> 'p bus" where
  "exec_cmds [] s = (Normal, s)"
| "exec_cmds (c # cs) s =
     (case exec_cmd c s of
        (Thrown, s') \<Rightarrow> (Thrown, s')
      | (Normal, s') \<Rightarrow> exec_cmds cs s')"

subsection \<open>The bus: dispatch\<close>

text \<open>A call \<^verbatim>\<open>handler(payload)\<close>. The wrapper of \<^verbatim>\<open>once\<close> calls the caller's function and
  then, when its variable \<^verbatim>\<open>unsubscribe\<close> is set, the function stored there.\<close>

fun invoke :: "'p program \<Rightarrow> handler \<Rightarrow> 'p \<Rightarrow> 'p bus \<Rightarrow> completion \<times> 'p bus" where
  "invoke prog (Fn n) payload s = exec_cmds (prog n payload) s"
| "invoke prog (OnceWrapper k n) payload s =
     (case exec_cmds (prog n payload) s of
        (Thrown, s') \<Rightarrow> (Thrown, s')
      | (Normal, s') \<Rightarrow>
          (if k < length (onceCells s')
           then (case onceCells s' ! k of
                   None \<Rightarrow> (Normal, s')
                 | Some unsubscribe \<Rightarrow> (Normal, call_unsub unsubscribe s'))
           else (Normal, s')))"

text \<open>The loop of \<^verbatim>\<open>publish\<close> over \<^verbatim>\<open>handlersCopy\<close>; a handler that throws ends it.\<close>

fun dispatch :: "'p program \<Rightarrow> event \<Rightarrow> handler list \<Rightarrow> 'p \<Rightarrow> 'p bus \<Rightarrow> completion \<times> 'p bus" where
  "dispatch prog event [] payload s = (Normal, s)"
| "dispatch prog event (h # hs) payload s =
     (case invoke prog h payload (s\<lparr>delivered := delivered s @ [(event, h, payload)]\<rparr>) of
        (Thrown, s') \<Rightarrow> (Thrown, s')
      | (Normal, s') \<Rightarrow> dispatch prog event hs payload s')"

text \<open>\<^verbatim>\<open>publish\<close> is an \<^verbatim>\<open>async\<close> function without \<^verbatim>\<open>await\<close>: its body runs within the call,
  and the promise it returns is resolved (\<open>Normal\<close>) or, when a handler threw, rejected
  (\<open>Thrown\<close>).\<close>

definition publish :: "'p program \<Rightarrow> event \<Rightarrow> 'p \<Rightarrow> 'p bus \<Rightarrow> completion \<times> 'p bus" where
  "publish prog event payload s =
     (case map_of (listeners s) event of
        None \<Rightarrow> (Normal, s)
      | Some handlers \<Rightarrow> dispatch prog event handlers payload s)"

text \<open>\<^verbatim>\<open>emit\<close> attaches \<^verbatim>\<open>catch\<close> to the promise: a rejection goes to \<^verbatim>\<open>console.error\<close>, and
  \<^verbatim>\<open>emit\<close> itself returns normally in both cases.\<close>

definition emit :: "'p program \<Rightarrow> event \<Rightarrow> 'p \<Rightarrow> 'p bus \<Rightarrow> completion \<times> 'p bus" where
  "emit prog event payload s =
     (case publish prog event payload (s\<lparr>emitted := emitted s @ [(event, payload)]\<rparr>) of
        (Thrown, s') \<Rightarrow> (Normal, s'\<lparr>errors := errors s' + 1\<rparr>)
      | (Normal, s') \<Rightarrow> (Normal, s'))"

subsection \<open>The bus: drain\<close>

fun exec_pcmd :: "'p program \<Rightarrow> 'p pcmd \<Rightarrow> 'p bus \<Rightarrow> completion \<times> 'p bus" where
  "exec_pcmd prog (Do c) s = exec_cmd c s"
| "exec_pcmd prog (Emit event payload) s = emit prog event payload s"

fun exec_pcmds :: "'p program \<Rightarrow> 'p pcmd list \<Rightarrow> 'p bus \<Rightarrow> completion \<times> 'p bus" where
  "exec_pcmds prog [] s = (Normal, s)"
| "exec_pcmds prog (c # cs) s =
     (case exec_pcmd prog c s of
        (Thrown, s') \<Rightarrow> (Thrown, s')
      | (Normal, s') \<Rightarrow> exec_pcmds prog cs s')"

text \<open>\<^verbatim>\<open>proc = processor || defaultProcessor\<close>: without a processor, the item is emitted.\<close>

definition run_proc ::
  "'p program \<Rightarrow> 'p processor option \<Rightarrow> event \<times> 'p \<Rightarrow> 'p bus \<Rightarrow> completion \<times> 'p bus" where
  "run_proc prog processor item s =
     (case processor of
        None \<Rightarrow> emit prog (fst item) (snd item) s
      | Some f \<Rightarrow> exec_pcmds prog (f (fst item) (snd item)) s)"

text \<open>The \<^verbatim>\<open>while\<close> loop of \<^verbatim>\<open>drain\<close>. It need not end (a processor may enqueue for ever),
  so the result is an option: \<open>None\<close> is a drain that never returns. A processor that throws
  ends the loop with the exception.\<close>

partial_function (option) drain ::
  "'p program \<Rightarrow> 'p processor option \<Rightarrow> 'p bus \<Rightarrow> (completion \<times> 'p bus) option" where
  "drain prog processor s =
     (if length (queue s) > 0
      then (let item = hd (queue s);
                s1 = s\<lparr>queue := tl (queue s), processed := processed s @ [item]\<rparr>;
                r = run_proc prog processor item s1
            in if fst r = Thrown then Some r else drain prog processor (snd r))
      else Some (Normal, s))"

declare drain.simps [code]

subsection \<open>Sequences of calls\<close>

text \<open>The caller's top-level code: a list of calls of the bus, run in order. An exception
  that leaves a call (only \<^verbatim>\<open>drain\<close> lets one through) ends the run; a drain that never
  returns gives \<open>None\<close>.\<close>

datatype 'p call =
    CallOn event nat
  | CallOnce event nat
  | CallOff event nat
  | CallUnsubscribe event handler
  | CallEmit event 'p
  | CallClear
  | CallEnqueue event 'p
  | CallDrain "'p processor option"

fun run_call :: "'p program \<Rightarrow> 'p call \<Rightarrow> 'p bus \<Rightarrow> (completion \<times> 'p bus) option" where
  "run_call prog (CallOn event n) s = Some (Normal, snd (on event (Fn n) s))"
| "run_call prog (CallOnce event n) s = Some (Normal, snd (once event n s))"
| "run_call prog (CallOff event n) s = Some (Normal, off event (Fn n) s)"
| "run_call prog (CallUnsubscribe event h) s =
     Some (Normal, call_unsub (BusUnsub (TransportUnsub event h) (getEventKey event) h) s)"
| "run_call prog (CallEmit event payload) s = Some (emit prog event payload s)"
| "run_call prog CallClear s = Some (Normal, clear s)"
| "run_call prog (CallEnqueue event payload) s = Some (Normal, enqueue event payload s)"
| "run_call prog (CallDrain processor) s = drain prog processor s"

fun run :: "'p program \<Rightarrow> 'p call list \<Rightarrow> 'p bus \<Rightarrow> (completion \<times> 'p bus) option" where
  "run prog [] s = Some (Normal, s)"
| "run prog (c # cs) s =
     (case run_call prog c s of
        None \<Rightarrow> None
      | Some r \<Rightarrow> (if fst r = Thrown then Some r else run prog cs (snd r)))"

section \<open>Notions used in the statements\<close>

text \<open>A handler raises on a payload when the caller's function it runs reaches a
  \<^verbatim>\<open>throw\<close>; the other commands never raise.\<close>

fun raises :: "'p program \<Rightarrow> 'p \<Rightarrow> handler \<Rightarrow> bool" where
  "raises prog payload (Fn n) = (Throw \<in> set (prog n payload))"
| "raises prog payload (OnceWrapper k n) = (Throw \<in> set (prog n payload))"

text \<open>The handlers registered for an event, in the order of the transport's set.\<close>

definition handlers_of :: "'p bus \<Rightarrow> event \<Rightarrow> handler list" where
  "handlers_of s event = (case map_of (listeners s) event of None \<Rightarrow> [] | Some hs \<Rightarrow> hs)"

text \<open>The part of a snapshot that a dispatch reaches: up to the first handler that raises,
  that one included.\<close>

fun attempted :: "'p program \<Rightarrow> 'p \<Rightarrow> handler list \<Rightarrow> handler list" where
  "attempted prog payload [] = []"
| "attempted prog payload (h # hs) =
     (if raises prog payload h then [h] else h # attempted prog payload hs)"

text \<open>States as the operations make them: a set holds a handler once, a wrapper in a set
  comes from an earlier call of \<^verbatim>\<open>once\<close>, and the closure stored under a key and a
  handler is one that \<^verbatim>\<open>subscribe\<close> returned for that handler and an event with that key.\<close>

fun allocated :: "nat \<Rightarrow> handler \<Rightarrow> bool" where
  "allocated n (Fn m) = True"
| "allocated n (OnceWrapper k m) = (k < n)"

definition sets_ok :: "nat \<Rightarrow> (event \<times> handler list) list \<Rightarrow> bool" where
  "sets_ok n ls = list_all (\<lambda>(e, hs). distinct hs \<and> list_all (allocated n) hs) ls"

fun stored_for :: "string \<Rightarrow> handler \<Rightarrow> tunsub \<Rightarrow> bool" where
  "stored_for k h (TransportUnsub e h') = (h' = h \<and> getEventKey e = k)"

definition registry_ok :: "(string \<times> (handler \<times> tunsub) list) list \<Rightarrow> bool" where
  "registry_ok fs = list_all (\<lambda>(k, m). list_all (\<lambda>(h, u). stored_for k h u) m) fs"

definition well_formed :: "'p bus \<Rightarrow> bool" where
  "well_formed s =
     (sets_ok (length (onceCells s)) (listeners s) \<and> registry_ok (unsubscribeFunctions s))"

text \<open>The handlers that one emit invokes, in order: the handlers of the entries it adds to
  \<open>delivered\<close>.\<close>

definition invoked_by_emit :: "'p program \<Rightarrow> event \<Rightarrow> 'p \<Rightarrow> 'p bus \<Rightarrow> handler list" where
  "invoked_by_emit prog event payload s =
     map (\<lambda>d. fst (snd d)) (drop (length (delivered s)) (delivered (snd (emit prog event payload s))))"

text \<open>The entry of \<^verbatim>\<open>unsubscribeFunctions\<close> for an event and a handler.\<close>

definition registered :: "'p bus \<Rightarrow> event \<Rightarrow> handler \<Rightarrow> tunsub option" where
  "registered s event handler =
     (case map_of (unsubscribeFunctions s) (getEventKey event) of
        None \<Rightarrow> None
      | Some eventHandlers \<Rightarrow> map_of eventHandlers handler)"

text \<open>
  Relations between the state before and the state after that every operation respects.
  \<open>step_closed R\<close>: \<open>R\<close> is reflexive and transitive and holds across each elementary step
  (a caller's command, a call of an unsubscribe function, a call of \<^verbatim>\<open>once\<close>, an entry
  added to a log, the removal of the head of the queue). \<open>call_closed prog R\<close> asks the
  same of a whole \<^verbatim>\<open>emit\<close> instead of the steps inside it. Such a relation then holds
  across \<^verbatim>\<open>drain\<close> and across any sequence of calls.
\<close>

definition step_closed :: "('p bus \<Rightarrow> 'p bus \<Rightarrow> bool) \<Rightarrow> bool" where
  "step_closed R =
     ((\<forall>s. R s s) \<and>
      (\<forall>a b c. R a b \<longrightarrow> R b c \<longrightarrow> R a c) \<and>
      (\<forall>c s. R s (snd (exec_cmd c s))) \<and>
      (\<forall>u s. R s (call_unsub u s)) \<and>
      (\<forall>e n s. R s (snd (once e n s))) \<and>
      (\<forall>x s. R s (s\<lparr>delivered := delivered s @ [x]\<rparr>)) \<and>
      (\<forall>x s. R s (s\<lparr>emitted := emitted s @ [x]\<rparr>)) \<and>
      (\<forall>s. R s (s\<lparr>errors := errors s + 1\<rparr>)) \<and>
      (\<forall>s. queue s \<noteq> [] \<longrightarrow>
           R s (s\<lparr>queue := tl (queue s), processed := processed s @ [hd (queue s)]\<rparr>)))"

definition call_closed :: "'p program \<Rightarrow> ('p bus \<Rightarrow> 'p bus \<Rightarrow> bool) \<Rightarrow> bool" where
  "call_closed prog R =
     ((\<forall>s. R s s) \<and>
      (\<forall>a b c. R a b \<longrightarrow> R b c \<longrightarrow> R a c) \<and>
      (\<forall>c s. R s (snd (exec_cmd c s))) \<and>
      (\<forall>e n s. R s (snd (once e n s))) \<and>
      (\<forall>e p s. R s (snd (emit prog e p s))) \<and>
      (\<forall>s. queue s \<noteq> [] \<longrightarrow>
           R s (s\<lparr>queue := tl (queue s), processed := processed s @ [hd (queue s)]\<rparr>)))"

text \<open>\<open>close_balance\<close>: \<^verbatim>\<open>close\<close> and \<^verbatim>\<open>clear\<close> have been called equally often in
  between. \<open>fifo_step\<close>: what was enqueued in between is \<open>new\<close>, and, if the queue was not
  cleared in between, the items processed so far followed by the queue are what they were,
  followed by \<open>new\<close>.\<close>

definition close_balance :: "'p bus \<Rightarrow> 'p bus \<Rightarrow> bool" where
  "close_balance s s' = (closes s' + clears s = clears s' + closes s)"

definition fifo_step :: "'p bus \<Rightarrow> 'p bus \<Rightarrow> bool" where
  "fifo_step s s' =
     (clears s \<le> clears s' \<and>
      (\<exists>new. enqueued s' = enqueued s @ new \<and>
         (clears s' = clears s \<longrightarrow> processed s' @ queue s' = processed s @ queue s @ new)))"

text \<open>Commands that change the queue; processor commands that do; processor commands that
  emit; a processor that raises on an item; the part of the queue that a drain with such
  a processor reaches (up to the first item on which it raises, that one included).\<close>

fun touches_queue :: "'p cmd \<Rightarrow> bool" where
  "touches_queue (Enqueue e p) = True"
| "touches_queue Clear = True"
| "touches_queue c = False"

fun ptouches_queue :: "'p pcmd \<Rightarrow> bool" where
  "ptouches_queue (Do c) = touches_queue c"
| "ptouches_queue (Emit e p) = False"

fun is_emit :: "'p pcmd \<Rightarrow> bool" where
  "is_emit (Do c) = False"
| "is_emit (Emit e p) = True"

definition praises :: "'p processor \<Rightarrow> event \<times> 'p \<Rightarrow> bool" where
  "praises f item = (Do Throw \<in> set (f (fst item) (snd item)))"

fun pattempted :: "'p processor \<Rightarrow> (event \<times> 'p) list \<Rightarrow> (event \<times> 'p) list" where
  "pattempted f [] = []"
| "pattempted f (item # items) = (if praises f item then [item] else item # pattempted f items)"

text \<open>The calls of \<^verbatim>\<open>emit\<close> that a processor's body makes: those before its first
  \<^verbatim>\<open>throw\<close>. The calls of \<^verbatim>\<open>emit\<close> that a processor makes for an item: the default
  processor emits the item and nothing else, a custom processor what its body does.\<close>

fun emits_of :: "'p pcmd list \<Rightarrow> (event \<times> 'p) list" where
  "emits_of [] = []"
| "emits_of (Emit e p # cs) = (e, p) # emits_of cs"
| "emits_of (Do Throw # cs) = []"
| "emits_of (Do c # cs) = emits_of cs"

definition emits_by :: "'p processor option \<Rightarrow> event \<times> 'p \<Rightarrow> (event \<times> 'p) list" where
  "emits_by processor item =
     (case processor of None \<Rightarrow> [item] | Some f \<Rightarrow> emits_of (f (fst item) (snd item)))"

text \<open>The caller's function that a handler runs, and the payloads with which a function
  has been invoked: every entry of \<open>delivered\<close> is one call of the handler, which runs its
  function once.\<close>

fun runs :: "handler \<Rightarrow> nat" where
  "runs (Fn n) = n"
| "runs (OnceWrapper k n) = n"

definition invocations :: "nat \<Rightarrow> 'p bus \<Rightarrow> 'p list" where
  "invocations n s = map (\<lambda>d. snd (snd d)) (filter (\<lambda>d. runs (fst (snd d)) = n) (delivered s))"

text \<open>The number of calls of a handler so far. \<open>wrapper_ok E k n\<close>: the wrapper made by the
  \<open>k\<close>-th call of \<^verbatim>\<open>once\<close>, for event \<open>E\<close> and function \<open>n\<close>, has its variable
  \<^verbatim>\<open>unsubscribe\<close> set and is registered for no other event. \<open>once_rel\<close>: in between, the
  wrapper was invoked at most once, and not at all if it was no longer registered; once
  invoked, it is no longer registered. \<open>gone_rel\<close>: a wrapper registered nowhere stays so
  and is not invoked.\<close>

definition deliveries :: "handler \<Rightarrow> 'p bus \<Rightarrow> nat" where
  "deliveries h s = length (filter (\<lambda>d. fst (snd d) = h) (delivered s))"

definition wrapper_ok :: "event \<Rightarrow> nat \<Rightarrow> nat \<Rightarrow> 'p bus \<Rightarrow> bool" where
  "wrapper_ok E k n s =
     (well_formed s \<and> k < length (onceCells s) \<and>
      onceCells s ! k =
        Some (BusUnsub (TransportUnsub E (OnceWrapper k n)) (getEventKey E) (OnceWrapper k n)) \<and>
      (\<forall>e. e \<noteq> E \<longrightarrow> OnceWrapper k n \<notin> set (handlers_of s e)))"

definition once_rel :: "event \<Rightarrow> nat \<Rightarrow> nat \<Rightarrow> 'p bus \<Rightarrow> 'p bus \<Rightarrow> bool" where
  "once_rel E k n s s' =
     (wrapper_ok E k n s \<longrightarrow>
        wrapper_ok E k n s' \<and>
        deliveries (OnceWrapper k n) s \<le> deliveries (OnceWrapper k n) s' \<and>
        deliveries (OnceWrapper k n) s' \<le> deliveries (OnceWrapper k n) s + 1 \<and>
        (deliveries (OnceWrapper k n) s' = deliveries (OnceWrapper k n) s + 1 \<longrightarrow>
           OnceWrapper k n \<notin> set (handlers_of s' E)) \<and>
        (OnceWrapper k n \<notin> set (handlers_of s E) \<longrightarrow>
           OnceWrapper k n \<notin> set (handlers_of s' E) \<and>
           deliveries (OnceWrapper k n) s' = deliveries (OnceWrapper k n) s))"

definition gone_rel :: "nat \<Rightarrow> nat \<Rightarrow> 'p bus \<Rightarrow> 'p bus \<Rightarrow> bool" where
  "gone_rel k n s s' =
     (k < length (onceCells s) \<and> (\<forall>e. OnceWrapper k n \<notin> set (handlers_of s e)) \<longrightarrow>
        k < length (onceCells s') \<and> (\<forall>e. OnceWrapper k n \<notin> set (handlers_of s' e)) \<and>
        deliveries (OnceWrapper k n) s' = deliveries (OnceWrapper k n) s)"

section \<open>Concrete buses and programs\<close>

text \<open>Used to run the theorems on: the prefix of a name is the claim it serves.\<close>

definition c1_prog :: "nat program" where
  "c1_prog n payload = (if n = 0 then [Throw] else [])"

definition c1_quiet_prog :: "nat program" where
  "c1_quiet_prog n payload = (if n = 0 then [Off (Str ''e'') 1] else [])"

definition c1_bus :: "nat bus" where
  "c1_bus = snd (on (Str ''e'') (Fn 1) (snd (on (Str ''e'') (Fn 0) createRouteBus)))"

definition c4_prog :: "nat program" where
  "c4_prog n payload = (if n = 0 then [Throw] else [])"

definition c4_bus :: "nat bus" where
  "c4_bus = snd (on (Str ''e'') (Fn 2) (snd (on (Str ''e'') (Fn 0) (snd (on (Str ''e'') (Fn 1) createRouteBus)))))"

definition c5_prog :: "nat program" where
  "c5_prog n payload = (if n = 0 then [Unsubscribe (Str ''e'') (Fn 0), Throw] else [])"

definition c5_quiet_prog :: "nat program" where
  "c5_quiet_prog n payload =
     (if n = 0 then [Unsubscribe (Str ''e'') (Fn 0), Unsubscribe (Str ''e'') (Fn 1)] else [])"

definition c5_bus :: "nat bus" where
  "c5_bus = snd (on (Str ''e'') (Fn 1) (snd (on (Str ''e'') (Fn 0) createRouteBus)))"

definition c7_prog :: "nat program" where
  "c7_prog n payload = []"

definition c7_unsubscribe :: unsub where
  "c7_unsubscribe = fst (on (Sym 0 ''x'') (Fn 0) (createRouteBus :: nat bus))"

definition c7_bus :: "nat bus" where
  "c7_bus = snd (on (Sym 1 ''x'') (Fn 0) (snd (on (Sym 0 ''x'') (Fn 0) createRouteBus)))"

definition c8_prog :: "nat program" where
  "c8_prog n payload = []"

definition c8_both :: "nat bus" where
  "c8_both = snd (on (Sym 1 ''x'') (Fn 0) (snd (on (Sym 0 ''x'') (Fn 0) createRouteBus)))"

definition c8_other :: "nat bus" where
  "c8_other = snd (on (Sym 1 ''x'') (Fn 0) createRouteBus)"

definition c8_number :: "nat bus" where
  "c8_number = snd (on (Str ''1'') (Fn 0) (snd (on (Num 1) (Fn 0) createRouteBus)))"

definition c3_prog :: "nat program" where
  "c3_prog n payload = []"

definition c3_final :: "nat bus" where
  "c3_final = createRouteBus\<lparr>emitted := [(Str ''e'', 1)], closes := 3, clears := 3\<rparr>"





definition c2_prog :: "nat program" where
  "c2_prog n payload = []"

definition c2_silent_proc :: "nat processor" where
  "c2_silent_proc event payload = []"

definition c2_emitting_proc :: "nat processor" where
  "c2_emitting_proc event payload = [Emit (Str ''x'') payload]"

definition c2_raising_proc :: "nat processor" where
  "c2_raising_proc event payload = [Do Throw]"

definition c2_bus :: "nat bus" where
  "c2_bus =
     enqueue (Str ''b'') 2 (enqueue (Str ''a'') 1 (snd (on (Str ''b'') (Fn 0) (snd (on (Str ''a'') (Fn 1) createRouteBus)))))"

definition c2_done :: "nat bus" where
  "c2_done = c2_bus\<lparr>queue := [], delivered := [(Str ''a'', Fn 1, 1), (Str ''b'', Fn 0, 2)],
     emitted := [(Str ''a'', 1), (Str ''b'', 2)], processed := [(Str ''a'', 1), (Str ''b'', 2)]\<rparr>"

definition c2_silent_done :: "nat bus" where
  "c2_silent_done = c2_bus\<lparr>queue := [], processed := [(Str ''a'', 1), (Str ''b'', 2)]\<rparr>"

definition c2_emitting_done :: "nat bus" where
  "c2_emitting_done = c2_bus\<lparr>queue := [], emitted := [(Str ''x'', 1), (Str ''x'', 2)],
     processed := [(Str ''a'', 1), (Str ''b'', 2)]\<rparr>"

definition c2_stopped :: "nat bus" where
  "c2_stopped = c2_bus\<lparr>queue := [(Str ''b'', 2)], processed := [(Str ''a'', 1)]\<rparr>"

definition c6_prog :: "nat program" where
  "c6_prog n payload = (if n = 0 then [Throw] else [])"

definition c6_bus :: "nat bus" where
  "c6_bus = snd (once (Str ''e'') 0 createRouteBus)"

section \<open>Auxiliary facts\<close>

subsection \<open>What each operation leaves alone\<close>

lemma call_tunsub_frame [simp]:
  "unsubscribeFunctions (call_tunsub t s) = unsubscribeFunctions s"
  "queue (call_tunsub t s) = queue s"
  "onceCells (call_tunsub t s) = onceCells s"
  "delivered (call_tunsub t s) = delivered s"
  "emitted (call_tunsub t s) = emitted s"
  "enqueued (call_tunsub t s) = enqueued s"
  "processed (call_tunsub t s) = processed s"
  "closes (call_tunsub t s) = closes s"
  "clears (call_tunsub t s) = clears s"
  "errors (call_tunsub t s) = errors s"
  by (case_tac [!] t) (simp_all add: Let_def split: option.splits)

lemma subscribe_frame [simp]:
  "fst (subscribe e h s) = TransportUnsub e h"
  "unsubscribeFunctions (snd (subscribe e h s)) = unsubscribeFunctions s"
  "queue (snd (subscribe e h s)) = queue s"
  "onceCells (snd (subscribe e h s)) = onceCells s"
  "delivered (snd (subscribe e h s)) = delivered s"
  "emitted (snd (subscribe e h s)) = emitted s"
  "enqueued (snd (subscribe e h s)) = enqueued s"
  "processed (snd (subscribe e h s)) = processed s"
  "closes (snd (subscribe e h s)) = closes s"
  "clears (snd (subscribe e h s)) = clears s"
  "errors (snd (subscribe e h s)) = errors s"
  by (simp_all add: subscribe_def Let_def)

lemma call_unsub_frame [simp]:
  "queue (call_unsub u s) = queue s"
  "onceCells (call_unsub u s) = onceCells s"
  "delivered (call_unsub u s) = delivered s"
  "emitted (call_unsub u s) = emitted s"
  "enqueued (call_unsub u s) = enqueued s"
  "processed (call_unsub u s) = processed s"
  "closes (call_unsub u s) = closes s"
  "clears (call_unsub u s) = clears s"
  "errors (call_unsub u s) = errors s"
  by (case_tac [!] u) (simp_all add: Let_def split: option.splits del: call_tunsub.simps)

lemma on_frame [simp]:
  "queue (snd (on e h s)) = queue s"
  "onceCells (snd (on e h s)) = onceCells s"
  "delivered (snd (on e h s)) = delivered s"
  "emitted (snd (on e h s)) = emitted s"
  "enqueued (snd (on e h s)) = enqueued s"
  "processed (snd (on e h s)) = processed s"
  "closes (snd (on e h s)) = closes s"
  "clears (snd (on e h s)) = clears s"
  "errors (snd (on e h s)) = errors s"
  by (simp_all add: on_def Let_def split_beta)

lemma off_frame [simp]:
  "queue (off e h s) = queue s"
  "onceCells (off e h s) = onceCells s"
  "delivered (off e h s) = delivered s"
  "emitted (off e h s) = emitted s"
  "enqueued (off e h s) = enqueued s"
  "processed (off e h s) = processed s"
  "closes (off e h s) = closes s"
  "clears (off e h s) = clears s"
  "errors (off e h s) = errors s"
  by (simp_all add: off_def Let_def split: option.splits del: call_tunsub.simps)

lemma enqueue_frame [simp]:
  "listeners (enqueue e p s) = listeners s"
  "unsubscribeFunctions (enqueue e p s) = unsubscribeFunctions s"
  "queue (enqueue e p s) = queue s @ [(e, p)]"
  "onceCells (enqueue e p s) = onceCells s"
  "delivered (enqueue e p s) = delivered s"
  "emitted (enqueue e p s) = emitted s"
  "enqueued (enqueue e p s) = enqueued s @ [(e, p)]"
  "processed (enqueue e p s) = processed s"
  "closes (enqueue e p s) = closes s"
  "clears (enqueue e p s) = clears s"
  "errors (enqueue e p s) = errors s"
  by (simp_all add: enqueue_def)

lemma fold_call_tunsub_keeps:
  assumes "\<And>t s. f (call_tunsub t s) = f s"
  shows "f (fold call_tunsub ts s) = f s"
  by (induction ts arbitrary: s) (simp_all add: assms del: call_tunsub.simps)

lemma clear_frame [simp]:
  "listeners (clear s) = []"
  "unsubscribeFunctions (clear s) = []"
  "queue (clear s) = []"
  "onceCells (clear s) = onceCells s"
  "delivered (clear s) = delivered s"
  "emitted (clear s) = emitted s"
  "enqueued (clear s) = enqueued s"
  "processed (clear s) = processed s"
  "closes (clear s) = closes s + 1"
  "clears (clear s) = clears s + 1"
  "errors (clear s) = errors s"
  by (simp_all add: clear_def close_def Let_def fold_call_tunsub_keeps)

lemma exec_cmd_frame [simp]:
  "onceCells (snd (exec_cmd c s)) = onceCells s"
  "delivered (snd (exec_cmd c s)) = delivered s"
  "emitted (snd (exec_cmd c s)) = emitted s"
  "processed (snd (exec_cmd c s)) = processed s"
  "errors (snd (exec_cmd c s)) = errors s"
  by (case_tac [!] c) (simp_all del: call_unsub.simps)

lemma exec_cmd_completion: "fst (exec_cmd c s) = (if c = Throw then Thrown else Normal)"
  by (cases c) simp_all

lemma exec_cmds_Cons:
  "exec_cmds (c # cs) s = (if c = Throw then (Thrown, s) else exec_cmds cs (snd (exec_cmd c s)))"
  by (cases c) simp_all

lemma exec_cmds_keeps:
  assumes "\<And>c s. f (snd (exec_cmd c s)) = f s"
  shows "f (snd (exec_cmds cs s)) = f s"
  by (induction cs arbitrary: s) (simp_all add: exec_cmds_Cons assms del: exec_cmds.simps(2))

lemma exec_cmds_frame [simp]:
  "onceCells (snd (exec_cmds cs s)) = onceCells s"
  "delivered (snd (exec_cmds cs s)) = delivered s"
  "emitted (snd (exec_cmds cs s)) = emitted s"
  "processed (snd (exec_cmds cs s)) = processed s"
  "errors (snd (exec_cmds cs s)) = errors s"
  by (simp_all add: exec_cmds_keeps)

lemma exec_cmds_completion:
  "fst (exec_cmds cs s) = (if Throw \<in> set cs then Thrown else Normal)"
  by (induction cs arbitrary: s) (simp_all add: exec_cmds_Cons del: exec_cmds.simps(2))

declare call_tunsub.simps [simp del] call_unsub.simps [simp del]

subsection \<open>Dispatch\<close>

text \<open>A dispatch reaches the handlers of its snapshot in order, up to the first one that
  raises; \<^verbatim>\<open>emit\<close> always returns normally and counts one error when the dispatch raised.\<close>

lemma attempted_no_raise:
  "\<forall>h\<in>set hs. \<not> raises prog payload h \<Longrightarrow> attempted prog payload hs = hs"
  by (induction hs) simp_all

lemma attempted_first_raise:
  "\<forall>h\<in>set pre. \<not> raises prog payload h \<Longrightarrow> raises prog payload h \<Longrightarrow>
   attempted prog payload (pre @ h # post) = pre @ [h]"
  by (induction pre) simp_all

lemma invoke_frame [simp]:
  "onceCells (snd (invoke prog h p s)) = onceCells s"
  "delivered (snd (invoke prog h p s)) = delivered s"
  "emitted (snd (invoke prog h p s)) = emitted s"
  "processed (snd (invoke prog h p s)) = processed s"
  "errors (snd (invoke prog h p s)) = errors s"
  by (case_tac [!] h) (simp_all add: split_beta split: completion.splits option.splits)

lemma invoke_completion:
  "fst (invoke prog h p s) = (if raises prog p h then Thrown else Normal)"
  by (cases h) (simp_all add: exec_cmds_completion split_beta split: completion.splits option.splits)

lemma dispatch_Cons:
  "dispatch prog e (h # hs) p s =
     (if raises prog p h
      then (Thrown, snd (invoke prog h p (s\<lparr>delivered := delivered s @ [(e, h, p)]\<rparr>)))
      else dispatch prog e hs p (snd (invoke prog h p (s\<lparr>delivered := delivered s @ [(e, h, p)]\<rparr>))))"
  using invoke_completion[of prog h p "s\<lparr>delivered := delivered s @ [(e, h, p)]\<rparr>"]
  by (cases "invoke prog h p (s\<lparr>delivered := delivered s @ [(e, h, p)]\<rparr>)") (auto split: if_splits)

declare dispatch.simps(2) [simp del]

lemma dispatch_completion:
  "fst (dispatch prog e hs p s) = (if \<exists>h\<in>set hs. raises prog p h then Thrown else Normal)"
  by (induction hs arbitrary: s) (simp_all add: dispatch_Cons)

lemma dispatch_delivered:
  "delivered (snd (dispatch prog e hs p s)) =
     delivered s @ map (\<lambda>h. (e, h, p)) (attempted prog p hs)"
  by (induction hs arbitrary: s) (simp_all add: dispatch_Cons)

lemma dispatch_frame [simp]:
  "onceCells (snd (dispatch prog e hs p s)) = onceCells s"
  "emitted (snd (dispatch prog e hs p s)) = emitted s"
  "processed (snd (dispatch prog e hs p s)) = processed s"
  "errors (snd (dispatch prog e hs p s)) = errors s"
  by (induction hs arbitrary: s, simp_all add: dispatch_Cons)+

lemma publish_handlers_of:
  "publish prog e p s = dispatch prog e (handlers_of s e) p s"
  by (simp add: publish_def handlers_of_def split: option.splits)

lemma handlers_of_update [simp]:
  "handlers_of (s\<lparr>delivered := d\<rparr>) = handlers_of s"
  "handlers_of (s\<lparr>emitted := m\<rparr>) = handlers_of s"
  "handlers_of (s\<lparr>errors := n\<rparr>) = handlers_of s"
  "handlers_of (s\<lparr>queue := q\<rparr>) = handlers_of s"
  "handlers_of (s\<lparr>processed := q\<rparr>) = handlers_of s"
  "handlers_of (s\<lparr>enqueued := q\<rparr>) = handlers_of s"
  "handlers_of (s\<lparr>unsubscribeFunctions := fs\<rparr>) = handlers_of s"
  "handlers_of (s\<lparr>onceCells := cs\<rparr>) = handlers_of s"
  by (simp_all add: handlers_of_def fun_eq_iff)

lemma emit_dispatch:
  "emit prog e p s =
     (Normal,
      (if \<exists>h\<in>set (handlers_of s e). raises prog p h
       then (snd (dispatch prog e (handlers_of s e) p (s\<lparr>emitted := emitted s @ [(e, p)]\<rparr>)))
              \<lparr>errors := errors s + 1\<rparr>
       else snd (dispatch prog e (handlers_of s e) p (s\<lparr>emitted := emitted s @ [(e, p)]\<rparr>))))"
proof -
  let ?s = "s\<lparr>emitted := emitted s @ [(e, p)]\<rparr>"
  let ?r = "dispatch prog e (handlers_of s e) p ?s"
  have "emit prog e p s =
          (case ?r of (Thrown, s') \<Rightarrow> (Normal, s'\<lparr>errors := errors s' + 1\<rparr>)
                    | (Normal, s') \<Rightarrow> (Normal, s'))"
    by (simp add: emit_def publish_handlers_of)
  moreover have "fst ?r = (if \<exists>h\<in>set (handlers_of s e). raises prog p h then Thrown else Normal)"
    by (rule dispatch_completion)
  moreover have "errors (snd ?r) = errors s"
    by simp
  ultimately show ?thesis
    by (cases ?r) (auto split: if_splits)
qed

lemma emit_completion [simp]: "fst (emit prog e p s) = Normal"
  by (simp add: emit_dispatch)

lemma emit_delivered:
  "delivered (snd (emit prog e p s)) =
     delivered s @ map (\<lambda>h. (e, h, p)) (attempted prog p (handlers_of s e))"
  by (simp add: emit_dispatch dispatch_delivered)

lemma emit_errors:
  "errors (snd (emit prog e p s)) =
     (if \<exists>h\<in>set (handlers_of s e). raises prog p h then errors s + 1 else errors s)"
  by (simp add: emit_dispatch)

lemma emit_frame [simp]:
  "onceCells (snd (emit prog e p s)) = onceCells s"
  "emitted (snd (emit prog e p s)) = emitted s @ [(e, p)]"
  "processed (snd (emit prog e p s)) = processed s"
  by (simp_all add: emit_dispatch)

subsection \<open>Well-formed states\<close>

lemma list_all_update:
  "list_all P al \<Longrightarrow> P (k, v) \<Longrightarrow> list_all P (AList.update k v al)"
  by (induction al) auto

lemma list_all_delete: "list_all P al \<Longrightarrow> list_all P (AList.delete k al)"
  by (induction al) auto

lemma list_all_map_of: "list_all P al \<Longrightarrow> map_of al k = Some v \<Longrightarrow> P (k, v)"
  by (induction al) (auto split: if_splits)

lemma allocated_mono: "allocated n h \<Longrightarrow> n \<le> n' \<Longrightarrow> allocated n' h"
  by (cases h) simp_all

lemma sets_ok_mono: "sets_ok n ls \<Longrightarrow> n \<le> n' \<Longrightarrow> sets_ok n' ls"
  unfolding sets_ok_def list_all_iff by (fastforce intro: allocated_mono)

lemma distinct_set_add: "distinct xs \<Longrightarrow> distinct (set_add x xs)"
  by (simp add: set_add_def)

lemma distinct_set_delete: "distinct xs \<Longrightarrow> distinct (set_delete x xs)"
  by (simp add: set_delete_def distinct_removeAll)

lemma sets_ok_subscribe:
  assumes "sets_ok n (listeners s)" and "allocated n h"
  shows "sets_ok n (listeners (snd (subscribe e h s)))"
proof (cases "map_of (listeners s) e")
  case None
  then show ?thesis using assms
    by (simp add: subscribe_def Let_def update_conv' sets_ok_def list_all_update set_add_def)
next
  case (Some hs)
  with assms have "distinct hs \<and> list_all (allocated n) hs"
    using list_all_map_of[of _ "listeners s" e hs] by (auto simp: sets_ok_def)
  with Some assms show ?thesis
    by (simp add: subscribe_def Let_def sets_ok_def list_all_update set_add_def)
qed

lemma sets_ok_call_tunsub:
  assumes "sets_ok n (listeners s)"
  shows "sets_ok n (listeners (call_tunsub t s))"
proof -
  obtain e h where t: "t = TransportUnsub e h" by (cases t)
  show ?thesis
  proof (cases "map_of (listeners s) e")
    case None
    then show ?thesis using assms by (simp add: t call_tunsub.simps)
  next
    case (Some hs)
    with assms have "distinct hs \<and> list_all (allocated n) hs"
      using list_all_map_of[of _ "listeners s" e hs] by (auto simp: sets_ok_def)
    then have "distinct (set_delete h hs) \<and> list_all (allocated n) (set_delete h hs)"
      by (auto simp: set_delete_def distinct_removeAll list_all_iff)
    with Some assms show ?thesis
      by (simp add: t call_tunsub.simps Let_def sets_ok_def list_all_update list_all_delete)
  qed
qed

lemma well_formed_call_tunsub: "well_formed s \<Longrightarrow> well_formed (call_tunsub t s)"
  by (simp add: well_formed_def sets_ok_call_tunsub)

lemma registry_ok_on:
  assumes "registry_ok (unsubscribeFunctions s)"
  shows "registry_ok (unsubscribeFunctions (snd (on e h s)))"
proof (cases "map_of (unsubscribeFunctions s) (getEventKey e)")
  case None
  then show ?thesis using assms
    by (simp add: on_def Let_def split_beta update_conv' registry_ok_def list_all_update)
next
  case (Some m)
  with assms have "list_all (\<lambda>(h, u). stored_for (getEventKey e) h u) m"
    using list_all_map_of[of _ "unsubscribeFunctions s" "getEventKey e" m]
    by (auto simp: registry_ok_def)
  with Some assms show ?thesis
    by (simp add: on_def Let_def split_beta registry_ok_def list_all_update)
qed

lemma listeners_on [simp]: "listeners (snd (on e h s)) = listeners (snd (subscribe e h s))"
  by (simp add: on_def Let_def split_beta)

lemma well_formed_on: "well_formed s \<Longrightarrow> allocated (length (onceCells s)) h \<Longrightarrow> well_formed (snd (on e h s))"
  by (simp add: well_formed_def sets_ok_subscribe registry_ok_on)

lemma registry_drop:
  assumes "registry_ok fs" and "map_of fs k = Some m"
  shows "registry_ok
           (if length (AList.delete h m) = 0
            then AList.delete k (AList.update k (AList.delete h m) fs)
            else AList.update k (AList.delete h m) fs)"
proof -
  from assms have "list_all (\<lambda>(h, u). stored_for k h u) m"
    using list_all_map_of[of _ fs k m] by (auto simp: registry_ok_def)
  then have "list_all (\<lambda>(h, u). stored_for k h u) (AList.delete h m)"
    by (rule list_all_delete)
  with assms(1) show ?thesis
    by (simp add: registry_ok_def list_all_update list_all_delete)
qed

lemma listeners_call_unsub [simp]:
  "listeners (call_unsub (BusUnsub t k h) s) = listeners (call_tunsub t s)"
  by (simp add: call_unsub.simps Let_def split: option.splits)

lemma well_formed_call_unsub: "well_formed s \<Longrightarrow> well_formed (call_unsub u s)"
proof -
  assume w: "well_formed s"
  obtain t k h where u: "u = BusUnsub t k h" by (cases u)
  have "registry_ok (unsubscribeFunctions (call_unsub u s))"
    using w registry_drop[of "unsubscribeFunctions s" k _ h]
    by (auto simp: u call_unsub.simps Let_def well_formed_def split: option.splits)
  then show ?thesis using w by (simp add: well_formed_def u sets_ok_call_tunsub)
qed

lemma well_formed_off: "well_formed s \<Longrightarrow> well_formed (off e h s)"
proof -
  assume w: "well_formed s"
  have "registry_ok (unsubscribeFunctions (off e h s))"
    using w registry_drop[of "unsubscribeFunctions s" "getEventKey e" _ h]
    by (auto simp: off_def Let_def well_formed_def split: option.splits)
  moreover have "sets_ok (length (onceCells s)) (listeners (off e h s))"
    using w by (auto simp: off_def Let_def well_formed_def sets_ok_call_tunsub split: option.splits)
  ultimately show ?thesis by (simp add: well_formed_def)
qed

lemma well_formed_enqueue: "well_formed s \<Longrightarrow> well_formed (enqueue e p s)"
  by (simp add: well_formed_def)

lemma well_formed_clear: "well_formed (clear s)"
  by (simp add: well_formed_def sets_ok_def registry_ok_def)

lemma well_formed_createRouteBus: "well_formed createRouteBus"
  by (simp add: well_formed_def sets_ok_def registry_ok_def createRouteBus_def)

lemma well_formed_once: "well_formed s \<Longrightarrow> well_formed (snd (once e n s))"
proof -
  assume w: "well_formed s"
  let ?s0 = "s\<lparr>onceCells := onceCells s @ [None]\<rparr>"
  have "well_formed ?s0" using w by (auto simp: well_formed_def intro: sets_ok_mono)
  then have "well_formed (snd (on e (OnceWrapper (length (onceCells s)) n) ?s0))"
    by (rule well_formed_on) simp
  then show ?thesis
    by (simp add: once_def Let_def split_beta well_formed_def)
qed

lemma well_formed_exec_cmd: "well_formed s \<Longrightarrow> well_formed (snd (exec_cmd c s))"
  by (cases c) (simp_all add: well_formed_on well_formed_off well_formed_call_unsub well_formed_enqueue well_formed_clear)

lemma well_formed_exec_cmds: "well_formed s \<Longrightarrow> well_formed (snd (exec_cmds cs s))"
  by (induction cs arbitrary: s) (simp_all add: exec_cmds_Cons well_formed_exec_cmd del: exec_cmds.simps(2))

lemma well_formed_invoke: "well_formed s \<Longrightarrow> well_formed (snd (invoke prog h p s))"
  by (cases h) (auto simp: split_beta well_formed_exec_cmds well_formed_call_unsub split: completion.splits option.splits)

lemma well_formed_delivered_update [simp]: "well_formed (s\<lparr>delivered := d\<rparr>) = well_formed s"
  by (simp add: well_formed_def)

lemma well_formed_dispatch: "well_formed s \<Longrightarrow> well_formed (snd (dispatch prog e hs p s))"
  by (induction hs arbitrary: s) (simp_all add: dispatch_Cons well_formed_invoke)

lemma well_formed_emit: "well_formed s \<Longrightarrow> well_formed (snd (emit prog e p s))"
proof -
  assume "well_formed s"
  then have "well_formed (s\<lparr>emitted := emitted s @ [(e, p)]\<rparr>)" by (simp add: well_formed_def)
  then have "well_formed (snd (dispatch prog e (handlers_of s e) p (s\<lparr>emitted := emitted s @ [(e, p)]\<rparr>)))"
    by (rule well_formed_dispatch)
  then show ?thesis by (simp add: emit_dispatch well_formed_def)
qed

lemma handlers_of_distinct: "well_formed s \<Longrightarrow> distinct (handlers_of s e)"
  using list_all_map_of[of _ "listeners s" e]
  by (auto simp: well_formed_def sets_ok_def handlers_of_def split: option.splits)

subsection \<open>Registering and unsubscribing\<close>

lemma invoked_by_emit_attempted:
  "invoked_by_emit prog e p s = attempted prog p (handlers_of s e)"
  by (simp add: invoked_by_emit_def emit_delivered comp_def)

lemma attempted_subset: "set (attempted prog p hs) \<subseteq> set hs"
  by (induction hs) auto

lemma attempted_prefix: "\<exists>rest. hs = attempted prog p hs @ rest"
  by (induction hs) auto

lemma map_of_listeners_call_tunsub:
  "map_of (listeners (call_tunsub (TransportUnsub e h) s)) e' =
     (if e' = e
      then (case map_of (listeners s) e of
              None \<Rightarrow> None
            | Some hs \<Rightarrow> if set_delete h hs = [] then None else Some (set_delete h hs))
      else map_of (listeners s) e')"
  by (simp add: call_tunsub.simps Let_def update_conv' delete_conv' split: option.splits)

lemma handlers_of_call_tunsub:
  "handlers_of (call_tunsub (TransportUnsub e h) s) e' =
     (if e' = e then removeAll h (handlers_of s e) else handlers_of s e')"
  by (simp add: handlers_of_def map_of_listeners_call_tunsub set_delete_def split: option.splits)

lemma handlers_of_call_unsub:
  "handlers_of (call_unsub (BusUnsub (TransportUnsub e h) k h') s) e' =
     (if e' = e then removeAll h (handlers_of s e) else handlers_of s e')"
  using handlers_of_call_tunsub[of e h s e'] by (simp add: handlers_of_def)

lemma map_of_listeners_subscribe:
  "map_of (listeners (snd (subscribe e h s))) e' =
     (if e' = e then Some (set_add h (handlers_of s e)) else map_of (listeners s) e')"
  by (simp add: subscribe_def Let_def update_conv' handlers_of_def set_add_def split: option.splits)

lemma handlers_of_on:
  "handlers_of (snd (on e h s)) e' =
     (if e' = e then set_add h (handlers_of s e) else handlers_of s e')"
  by (simp add: handlers_of_def map_of_listeners_subscribe)

lemma registered_update [simp]:
  "registered (s\<lparr>listeners := ls\<rparr>) = registered s"
  "registered (s\<lparr>delivered := d\<rparr>) = registered s"
  "registered (s\<lparr>emitted := m\<rparr>) = registered s"
  "registered (s\<lparr>queue := q\<rparr>) = registered s"
  by (simp_all add: registered_def fun_eq_iff)

lemma registered_call_tunsub [simp]: "registered (call_tunsub t s) = registered s"
  by (simp add: registered_def fun_eq_iff)

lemma registered_on:
  "registered (snd (on e h s)) e' h' =
     (if getEventKey e' = getEventKey e \<and> h' = h then Some (TransportUnsub e h)
      else registered s e' h')"
  by (simp add: registered_def on_def Let_def split_beta update_conv' split: option.splits)

lemma delete_Nil_map_of: "AList.delete k al = [] \<Longrightarrow> k' \<noteq> k \<Longrightarrow> map_of al k' = None"
  using map_of_delete[of k' k al] by simp

lemma registered_call_unsub:
  "registered (call_unsub (BusUnsub t (getEventKey e) h) s) e' h' =
     (if getEventKey e' = getEventKey e \<and> h' = h then None else registered s e' h')"
  by (auto simp add: registered_def call_unsub.simps Let_def update_conv'
      delete_conv' delete_Nil_map_of split: option.splits)

lemma off_not_registered: "registered s e h = None \<Longrightarrow> off e h s = s"
  by (cases "map_of (unsubscribeFunctions s) (getEventKey e)")
     (simp_all add: registered_def off_def Let_def)

lemma off_registered:
  "registered s e h = Some t \<Longrightarrow> off e h s = call_unsub (BusUnsub t (getEventKey e) h) s"
  by (cases "map_of (unsubscribeFunctions s) (getEventKey e)")
     (simp_all add: registered_def off_def call_unsub.simps Let_def)

lemma registered_well_formed:
  "well_formed s \<Longrightarrow> registered s e h = Some t \<Longrightarrow>
     \<exists>e'. t = TransportUnsub e' h \<and> getEventKey e' = getEventKey e"
proof -
  assume w: "well_formed s" and r: "registered s e h = Some t"
  from r obtain m where m: "map_of (unsubscribeFunctions s) (getEventKey e) = Some m"
    and t: "map_of m h = Some t"
    by (auto simp: registered_def split: option.splits)
  from w m have "list_all (\<lambda>(h, u). stored_for (getEventKey e) h u) m"
    using list_all_map_of[of _ "unsubscribeFunctions s" "getEventKey e" m]
    by (auto simp: well_formed_def registry_ok_def)
  with t have "stored_for (getEventKey e) h t"
    using list_all_map_of[of _ m h t] by auto
  then show ?thesis by (cases t) simp
qed

lemma call_tunsub_unsubscribeFunctions_update:
  "call_tunsub t (s\<lparr>unsubscribeFunctions := fs\<rparr>) = (call_tunsub t s)\<lparr>unsubscribeFunctions := fs\<rparr>"
  by (cases t) (simp add: call_tunsub.simps Let_def split: option.splits)

lemma call_tunsub_idem: "call_tunsub t (call_tunsub t s) = call_tunsub t s"
proof -
  obtain e h where t: "t = TransportUnsub e h" by (cases t)
  show ?thesis
  proof (cases "map_of (listeners s) e")
    case None
    then show ?thesis by (simp add: t call_tunsub.simps)
  next
    case (Some hs)
    show ?thesis
    proof (cases "set_delete h hs = []")
      case True
      with Some show ?thesis
        by (simp add: t call_tunsub.simps Let_def delete_conv')
    next
      case False
      moreover have "set_delete h (set_delete h hs) = set_delete h hs"
        by (simp add: set_delete_def)
      ultimately show ?thesis using Some
        by (simp add: t call_tunsub.simps Let_def update_conv')
    qed
  qed
qed

lemma call_unsub_idem: "call_unsub u (call_unsub u s) = call_unsub u s"
proof -
  obtain t k h where u: "u = BusUnsub t k h" by (cases u)
  let ?s1 = "call_tunsub t s"
  show ?thesis
  proof (cases "map_of (unsubscribeFunctions s) k")
    case None
    then show ?thesis by (simp add: u call_unsub.simps call_tunsub_idem)
  next
    case (Some m)
    show ?thesis
    proof (cases "AList.delete h m = []")
      case True
      with Some show ?thesis
        by (simp add: u call_unsub.simps Let_def call_tunsub_unsubscribeFunctions_update
            call_tunsub_idem delete_conv')
    next
      case False
      with Some show ?thesis
        by (simp add: u call_unsub.simps Let_def call_tunsub_unsubscribeFunctions_update
            call_tunsub_idem update_conv' delete_idem)
    qed
  qed
qed

lemma fst_on [simp]: "fst (on e h s) = BusUnsub (TransportUnsub e h) (getEventKey e) h"
  by (simp add: on_def Let_def split_beta)

lemma not_in_invoked_by_emit:
  "h \<notin> set (handlers_of s e) \<Longrightarrow> h \<notin> set (invoked_by_emit prog e p s)"
  using attempted_subset[of prog p "handlers_of s e"] by (auto simp: invoked_by_emit_attempted)

text \<open>What a call of an unsubscribe function does, and what \<^verbatim>\<open>off\<close> does: the handler
  leaves the set of the event that the closure captured, and the entry under the key and
  the handler leaves \<^verbatim>\<open>unsubscribeFunctions\<close>, whichever event it was made for.\<close>

lemma unsubscribe_effect:
  "call_unsub (fst (on E h s0)) (call_unsub (fst (on E h s0)) s) = call_unsub (fst (on E h s0)) s \<and>
   call_tunsub (fst (subscribe E h s0)) (call_tunsub (fst (subscribe E h s0)) s) =
     call_tunsub (fst (subscribe E h s0)) s \<and>
   handlers_of (call_unsub (fst (on E h s0)) s) E' =
     (if E' = E then removeAll h (handlers_of s E) else handlers_of s E') \<and>
   handlers_of (call_tunsub (fst (subscribe E h s0)) s) E' =
     (if E' = E then removeAll h (handlers_of s E) else handlers_of s E') \<and>
   registered (call_unsub (fst (on E h s0)) s) E' h' =
     (if getEventKey E' = getEventKey E \<and> h' = h then None else registered s E' h') \<and>
   registered (call_tunsub (fst (subscribe E h s0)) s) E' h' = registered s E' h' \<and>
   queue (call_unsub (fst (on E h s0)) s) = queue s \<and>
   queue (call_tunsub (fst (subscribe E h s0)) s) = queue s \<and>
   h \<notin> set (invoked_by_emit prog E P (call_unsub (fst (on E h s0)) s)) \<and>
   h \<notin> set (invoked_by_emit prog E P (call_tunsub (fst (subscribe E h s0)) s))"
proof -
  have "h \<notin> set (invoked_by_emit prog E P (call_unsub (fst (on E h s0)) s))"
    by (rule not_in_invoked_by_emit) (simp add: handlers_of_call_unsub)
  moreover have "h \<notin> set (invoked_by_emit prog E P (call_tunsub (fst (subscribe E h s0)) s))"
    by (rule not_in_invoked_by_emit) (simp add: handlers_of_call_tunsub)
  ultimately show ?thesis
    by (simp add: call_unsub_idem call_tunsub_idem handlers_of_call_unsub handlers_of_call_tunsub
        registered_call_unsub)
qed

lemma off_effect:
  "(registered s E h = None \<longrightarrow> off E h s = s) \<and>
   (registered s E h = Some (TransportUnsub E0 h0) \<longrightarrow>
      registered (off E h s) E' h' =
        (if getEventKey E' = getEventKey E \<and> h' = h then None else registered s E' h') \<and>
      handlers_of (off E h s) E' =
        (if E' = E0 then removeAll h0 (handlers_of s E0) else handlers_of s E') \<and>
      queue (off E h s) = queue s)"
  by (simp add: off_not_registered off_registered registered_call_unsub handlers_of_call_unsub)

subsection \<open>Relations that every operation respects\<close>

lemma step_closed_refl: "step_closed R \<Longrightarrow> R s s"
  by (simp add: step_closed_def)

lemma step_closed_trans: "step_closed R \<Longrightarrow> R a b \<Longrightarrow> R b c \<Longrightarrow> R a c"
  unfolding step_closed_def by blast

lemma step_closed_exec_cmds:
  assumes "step_closed R"
  shows "R s (snd (exec_cmds cs s))"
proof (induction cs arbitrary: s)
  case Nil
  show ?case using assms by (simp add: step_closed_def)
next
  case (Cons c cs)
  have "R s (snd (exec_cmd c s))" using assms by (simp add: step_closed_def)
  with Cons[of "snd (exec_cmd c s)"] show ?case
    using assms step_closed_trans[OF assms] step_closed_refl[OF assms]
    by (auto simp add: exec_cmds_Cons simp del: exec_cmds.simps(2))
qed

lemma step_closed_invoke:
  assumes "step_closed R"
  shows "R s (snd (invoke prog h p s))"
proof (cases h)
  case (Fn n)
  then show ?thesis by (simp add: step_closed_exec_cmds[OF assms])
next
  case (OnceWrapper k n)
  let ?s' = "snd (exec_cmds (prog n p) s)"
  have a: "R s ?s'" by (rule step_closed_exec_cmds[OF assms])
  have b: "R ?s' (call_unsub u ?s')" for u using assms by (simp add: step_closed_def)
  show ?thesis
    using a step_closed_trans[OF assms a b]
    by (cases "exec_cmds (prog n p) s")
       (auto simp add: OnceWrapper split: completion.splits option.splits)
qed

lemma step_closed_dispatch:
  assumes "step_closed R"
  shows "R s (snd (dispatch prog e hs p s))"
proof (induction hs arbitrary: s)
  case Nil
  show ?case by (simp add: step_closed_refl[OF assms])
next
  case (Cons h hs)
  let ?s1 = "s\<lparr>delivered := delivered s @ [(e, h, p)]\<rparr>"
  let ?s2 = "snd (invoke prog h p ?s1)"
  have "R s ?s1" using assms by (simp add: step_closed_def)
  moreover have "R ?s1 ?s2" by (rule step_closed_invoke[OF assms])
  ultimately have a: "R s ?s2" by (rule step_closed_trans[OF assms])
  from step_closed_trans[OF assms a Cons[of ?s2]] a show ?case
    by (simp add: dispatch_Cons)
qed

lemma step_closed_emit:
  assumes "step_closed R"
  shows "R s (snd (emit prog e p s))"
proof -
  let ?s1 = "s\<lparr>emitted := emitted s @ [(e, p)]\<rparr>"
  let ?s2 = "snd (dispatch prog e (handlers_of s e) p ?s1)"
  have "R s ?s1" using assms by (simp add: step_closed_def)
  moreover have "R ?s1 ?s2" by (rule step_closed_dispatch[OF assms])
  ultimately have a: "R s ?s2" by (rule step_closed_trans[OF assms])
  have "errors ?s2 = errors s" by simp
  moreover have "R ?s2 (?s2\<lparr>errors := errors ?s2 + 1\<rparr>)"
    using assms unfolding step_closed_def by blast
  ultimately have "R s (?s2\<lparr>errors := errors s + 1\<rparr>)"
    using step_closed_trans[OF assms a] by simp
  with a show ?thesis by (simp add: emit_dispatch)
qed

lemma exec_pcmds_Cons:
  "exec_pcmds prog (c # cs) s =
     (if fst (exec_pcmd prog c s) = Thrown then (Thrown, snd (exec_pcmd prog c s))
      else exec_pcmds prog cs (snd (exec_pcmd prog c s)))"
  by (cases "exec_pcmd prog c s"; cases "fst (exec_pcmd prog c s)") auto

lemma step_closed_call_closed: "step_closed R \<Longrightarrow> call_closed prog R"
  unfolding call_closed_def
  by (intro conjI allI impI)
     (auto simp add: step_closed_emit intro: step_closed_refl step_closed_trans,
      auto simp add: step_closed_def)

lemma call_closed_refl: "call_closed prog R \<Longrightarrow> R s s"
  by (simp add: call_closed_def)

lemma call_closed_trans: "call_closed prog R \<Longrightarrow> R a b \<Longrightarrow> R b c \<Longrightarrow> R a c"
  unfolding call_closed_def by blast

lemma call_closed_exec_pcmd:
  assumes "call_closed prog R"
  shows "R s (snd (exec_pcmd prog c s))"
  using assms by (cases c) (simp_all add: call_closed_def)

lemma call_closed_exec_pcmds:
  assumes "call_closed prog R"
  shows "R s (snd (exec_pcmds prog cs s))"
proof (induction cs arbitrary: s)
  case Nil
  show ?case by (simp add: call_closed_refl[OF assms])
next
  case (Cons c cs)
  have a: "R s (snd (exec_pcmd prog c s))" by (rule call_closed_exec_pcmd[OF assms])
  from call_closed_trans[OF assms a Cons[of "snd (exec_pcmd prog c s)"]] a show ?case
    by (simp add: exec_pcmds_Cons del: exec_pcmds.simps(2))
qed

lemma call_closed_run_proc:
  assumes "call_closed prog R"
  shows "R s (snd (run_proc prog proc item s))"
  using assms
  by (cases proc) (simp_all add: run_proc_def call_closed_exec_pcmds[OF assms] call_closed_def)

lemma call_closed_drain:
  assumes "call_closed prog R" and "drain prog proc s = Some r"
  shows "R s (snd r)"
proof -
  have "call_closed prog R \<longrightarrow> R s (snd r)"
  proof (rule drain.raw_induct[where P = "\<lambda>prog proc s r. call_closed prog R \<longrightarrow> R s (snd r)",
        OF _ assms(2)])
    fix d :: "'a program \<Rightarrow> 'a processor option \<Rightarrow> 'a bus \<Rightarrow> (completion \<times> 'a bus) option"
      and prog proc s r
    assume IH: "\<And>prog proc s r. d prog proc s = Some r \<Longrightarrow> call_closed prog R \<longrightarrow> R s (snd r)"
    assume eq: "(if 0 < length (queue s)
        then let item = hd (queue s);
                 s1 = s\<lparr>queue := tl (queue s), processed := processed s @ [item]\<rparr>;
                 r = run_proc prog proc item s1
             in if fst r = Thrown then Some r else d prog proc (snd r)
        else Some (Normal, s)) = Some r"
    show "call_closed prog R \<longrightarrow> R s (snd r)"
    proof
      assume cc: "call_closed prog R"
      show "R s (snd r)"
      proof (cases "queue s = []")
        case True
        with eq show ?thesis using call_closed_refl[OF cc, of s] by auto
      next
        case False
        let ?s1 = "s\<lparr>queue := tl (queue s), processed := processed s @ [hd (queue s)]\<rparr>"
        let ?r = "run_proc prog proc (hd (queue s)) ?s1"
        have "R s ?s1" using cc False unfolding call_closed_def by blast
        moreover have "R ?s1 (snd ?r)" by (rule call_closed_run_proc[OF cc])
        ultimately have a: "R s (snd ?r)" by (rule call_closed_trans[OF cc])
        show ?thesis
        proof (cases "fst ?r = Thrown")
          case True
          with eq False a show ?thesis by (auto simp add: Let_def)
        next
          case nt: False
          with eq False have "d prog proc (snd ?r) = Some r" by (simp add: Let_def)
          then have "R (snd ?r) (snd r)" using IH cc by blast
          with a show ?thesis by (rule call_closed_trans[OF cc])
        qed
      qed
    qed
  qed
  with assms(1) show ?thesis by simp
qed

lemma call_closed_run_call:
  assumes "call_closed prog R" and "run_call prog c s = Some r"
  shows "R s (snd r)"
proof (cases c)
  case (CallOn e n)
  have "R s (snd (exec_cmd (On e n) s))" using assms(1) unfolding call_closed_def by blast
  with CallOn assms(2) show ?thesis by auto
next
  case (CallOnce e n)
  with assms show ?thesis by (auto simp: call_closed_def)
next
  case (CallOff e n)
  have "R s (snd (exec_cmd (Off e n) s))" using assms(1) unfolding call_closed_def by blast
  with CallOff assms(2) show ?thesis by auto
next
  case (CallUnsubscribe e h)
  have "R s (snd (exec_cmd (Unsubscribe e h) s))" using assms(1) unfolding call_closed_def by blast
  with CallUnsubscribe assms(2) show ?thesis by auto
next
  case (CallEmit e p)
  with assms show ?thesis by (auto simp: call_closed_def)
next
  case CallClear
  have "R s (snd (exec_cmd Clear s))" using assms(1) unfolding call_closed_def by blast
  with CallClear assms(2) show ?thesis by auto
next
  case (CallEnqueue e p)
  have "R s (snd (exec_cmd (Enqueue e p) s))" using assms(1) unfolding call_closed_def by blast
  with CallEnqueue assms(2) show ?thesis by auto
next
  case (CallDrain proc)
  with assms(2) show ?thesis by (auto intro: call_closed_drain[OF assms(1)])
qed

lemma call_closed_run:
  assumes "call_closed prog R" and "run prog cs s = Some r"
  shows "R s (snd r)"
  using assms(2)
proof (induction cs arbitrary: s)
  case Nil
  then show ?case by (auto simp: call_closed_refl[OF assms(1)])
next
  case (Cons c cs)
  from Cons(2) obtain r1 where r1: "run_call prog c s = Some r1"
    by (cases "run_call prog c s") auto
  then have a: "R s (snd r1)" by (rule call_closed_run_call[OF assms(1)])
  show ?case
  proof (cases "fst r1 = Thrown")
    case True
    with Cons(2) r1 a show ?thesis by simp
  next
    case False
    with Cons(2) r1 have "run prog cs (snd r1) = Some r" by simp
    then have "R (snd r1) (snd r)" by (rule Cons(1))
    with a show ?thesis by (rule call_closed_trans[OF assms(1)])
  qed
qed

lemma step_closed_drain:
  "step_closed R \<Longrightarrow> drain prog proc s = Some r \<Longrightarrow> R s (snd r)"
  by (rule call_closed_drain[OF step_closed_call_closed])

lemma step_closed_run:
  "step_closed R \<Longrightarrow> run prog cs s = Some r \<Longrightarrow> R s (snd r)"
  by (rule call_closed_run[OF step_closed_call_closed])

subsection \<open>Three such relations\<close>

text \<open>The balance of \<^verbatim>\<open>close\<close> and \<^verbatim>\<open>clear\<close>, the order of the queue, and well-formedness:
  every state that a sequence of calls reaches from the initial bus is well-formed.\<close>

lemma once_frame [simp]:
  "queue (snd (once e n s)) = queue s"
  "delivered (snd (once e n s)) = delivered s"
  "emitted (snd (once e n s)) = emitted s"
  "enqueued (snd (once e n s)) = enqueued s"
  "processed (snd (once e n s)) = processed s"
  "closes (snd (once e n s)) = closes s"
  "clears (snd (once e n s)) = clears s"
  "errors (snd (once e n s)) = errors s"
  by (simp_all add: once_def Let_def split_beta)

lemma exec_cmd_close_balance: "close_balance s (snd (exec_cmd c s))"
  by (cases c) (simp_all add: close_balance_def)

lemma step_closed_close_balance: "step_closed (close_balance :: 'p bus \<Rightarrow> 'p bus \<Rightarrow> bool)"
  unfolding step_closed_def
  by (intro conjI allI impI) (simp_all add: exec_cmd_close_balance, simp_all add: close_balance_def)

lemma fifo_step_refl: "fifo_step s s"
  by (simp add: fifo_step_def)

lemma fifo_step_trans:
  assumes "fifo_step a b" and "fifo_step b c"
  shows "fifo_step a c"
proof -
  from assms(1) obtain n1 where 1: "clears a \<le> clears b" "enqueued b = enqueued a @ n1"
    "clears b = clears a \<longrightarrow> processed b @ queue b = processed a @ queue a @ n1"
    by (auto simp: fifo_step_def)
  from assms(2) obtain n2 where 2: "clears b \<le> clears c" "enqueued c = enqueued b @ n2"
    "clears c = clears b \<longrightarrow> processed c @ queue c = processed b @ queue b @ n2"
    by (auto simp: fifo_step_def)
  have "enqueued c = enqueued a @ (n1 @ n2)" using 1 2 by simp
  moreover have "clears c = clears a \<longrightarrow> processed c @ queue c = processed a @ queue a @ (n1 @ n2)"
    using 1 2 by auto
  moreover have "clears a \<le> clears c" using 1 2 by simp
  ultimately show ?thesis unfolding fifo_step_def by blast
qed

lemma fifo_step_same:
  "clears s' = clears s \<Longrightarrow> enqueued s' = enqueued s \<Longrightarrow>
   processed s' @ queue s' = processed s @ queue s \<Longrightarrow> fifo_step s s'"
  by (simp add: fifo_step_def)

lemma exec_cmd_fifo_step: "fifo_step s (snd (exec_cmd c s))"
  by (cases c) (simp_all add: fifo_step_def)

lemma step_closed_fifo_step: "step_closed (fifo_step :: 'p bus \<Rightarrow> 'p bus \<Rightarrow> bool)"
  unfolding step_closed_def
proof (intro conjI allI impI)
  fix a b c :: "'p bus"
  assume "fifo_step a b" "fifo_step b c"
  then show "fifo_step a c" by (rule fifo_step_trans)
next
  fix s :: "'p bus"
  assume "queue s \<noteq> []"
  then have "[hd (queue s)] @ tl (queue s) = queue s" by simp
  then show "fifo_step s (s\<lparr>queue := tl (queue s), processed := processed s @ [hd (queue s)]\<rparr>)"
    by (intro fifo_step_same) simp_all
qed (simp_all add: exec_cmd_fifo_step fifo_step_same)

lemma step_closed_well_formed:
  "step_closed (\<lambda>s s' :: 'p bus. well_formed s \<longrightarrow> well_formed s')"
  unfolding step_closed_def
  by (intro conjI allI impI)
     (simp_all add: well_formed_exec_cmd well_formed_call_unsub well_formed_once,
      simp_all add: well_formed_def)

lemma well_formed_run:
  "run prog calls createRouteBus = Some r \<Longrightarrow> well_formed (snd r)"
  using step_closed_run[OF step_closed_well_formed, of prog calls createRouteBus r]
  by (simp add: well_formed_createRouteBus)

subsection \<open>Drain\<close>


lemma fifo_step_processed:
  assumes "fifo_step s s'" and "clears s' = clears s"
  shows "processed s' @ queue s' = processed s @ queue s @ drop (length (enqueued s)) (enqueued s')"
  using assms by (auto simp: fifo_step_def)

lemma exec_cmd_queue: "\<not> touches_queue c \<Longrightarrow> queue (snd (exec_cmd c s)) = queue s"
  by (cases c) simp_all

lemma exec_cmds_queue:
  "\<forall>c\<in>set cs. \<not> touches_queue c \<Longrightarrow> queue (snd (exec_cmds cs s)) = queue s"
  by (induction cs arbitrary: s) (simp_all add: exec_cmds_Cons exec_cmd_queue del: exec_cmds.simps(2))

lemma invoke_queue:
  assumes "\<forall>n p. \<forall>c\<in>set (prog n p). \<not> touches_queue c"
  shows "queue (snd (invoke prog h p s)) = queue s"
  using assms
  by (cases h; cases "exec_cmds (prog (case h of Fn n \<Rightarrow> n | OnceWrapper k n \<Rightarrow> n) p) s")
     (auto simp: exec_cmds_queue split: completion.splits option.splits
       dest: arg_cong[where f = "\<lambda>r. queue (snd r)"])

lemma dispatch_queue:
  assumes "\<forall>n p. \<forall>c\<in>set (prog n p). \<not> touches_queue c"
  shows "queue (snd (dispatch prog e hs p s)) = queue s"
  by (induction hs arbitrary: s) (simp_all add: dispatch_Cons invoke_queue[OF assms])

lemma emit_queue:
  assumes "\<forall>n p. \<forall>c\<in>set (prog n p). \<not> touches_queue c"
  shows "queue (snd (emit prog e p s)) = queue s"
  by (simp add: emit_dispatch dispatch_queue[OF assms])

lemma exec_pcmd_completion:
  "fst (exec_pcmd prog c s) = (if c = Do Throw then Thrown else Normal)"
  by (cases c) (simp_all add: exec_cmd_completion)

lemma exec_pcmds_completion:
  "fst (exec_pcmds prog cs s) = (if Do Throw \<in> set cs then Thrown else Normal)"
  by (induction cs arbitrary: s)
     (simp_all add: exec_pcmds_Cons exec_pcmd_completion del: exec_pcmds.simps(2))

lemma exec_pcmds_keeps:
  assumes "\<And>c s. c \<in> set cs \<Longrightarrow> f (snd (exec_pcmd prog c s)) = f s"
  shows "f (snd (exec_pcmds prog cs s)) = f s"
  using assms
  by (induction cs arbitrary: s) (simp_all add: exec_pcmds_Cons del: exec_pcmds.simps(2))

lemma exec_pcmd_processed [simp]: "processed (snd (exec_pcmd prog c s)) = processed s"
  by (cases c) simp_all

lemma exec_pcmds_processed [simp]: "processed (snd (exec_pcmds prog cs s)) = processed s"
  by (rule exec_pcmds_keeps) simp

lemma exec_pcmds_queue:
  assumes "\<forall>n p. \<forall>c\<in>set (prog n p). \<not> touches_queue c"
    and "\<forall>c\<in>set cs. \<not> ptouches_queue c"
  shows "queue (snd (exec_pcmds prog cs s)) = queue s"
proof (rule exec_pcmds_keeps)
  fix c s
  assume "c \<in> set cs"
  with assms(2) have "\<not> ptouches_queue c" by blast
  then show "queue (snd (exec_pcmd prog c s)) = queue s"
    by (cases c) (simp_all add: exec_cmd_queue emit_queue[OF assms(1)])
qed

lemma exec_pcmds_no_emit:
  assumes "\<forall>c\<in>set cs. \<not> is_emit c"
  shows "emitted (snd (exec_pcmds prog cs s)) = emitted s"
    and "delivered (snd (exec_pcmds prog cs s)) = delivered s"
proof -
  have *: "\<not> is_emit c \<Longrightarrow> emitted (snd (exec_pcmd prog c s)) = emitted s \<and>
       delivered (snd (exec_pcmd prog c s)) = delivered s" for c s
    by (cases c) simp_all
  show "emitted (snd (exec_pcmds prog cs s)) = emitted s"
    by (rule exec_pcmds_keeps) (use assms * in blast)
  show "delivered (snd (exec_pcmds prog cs s)) = delivered s"
    by (rule exec_pcmds_keeps) (use assms * in blast)
qed

lemma drain_step:
  "queue s = item # items \<Longrightarrow>
   drain prog proc s =
     (let r = run_proc prog proc item (s\<lparr>queue := items, processed := processed s @ [item]\<rparr>)
      in if fst r = Thrown then Some r else drain prog proc (snd r))"
  by (subst drain.simps) (simp add: Let_def)

lemma drain_empty: "queue s = [] \<Longrightarrow> drain prog proc s = Some (Normal, s)"
  by (subst drain.simps) simp

lemma drain_quiet_default:
  assumes "\<forall>n p. \<forall>c\<in>set (prog n p). \<not> touches_queue c"
  shows "\<exists>s'. drain prog None s = Some (Normal, s') \<and> queue s' = [] \<and>
              processed s' = processed s @ queue s \<and> emitted s' = emitted s @ queue s"
proof (induction "queue s" arbitrary: s)
  case Nil
  then show ?case by (simp add: drain_empty)
next
  case (Cons item items)
  let ?s1 = "s\<lparr>queue := items, processed := processed s @ [item]\<rparr>"
  let ?r = "emit prog (fst item) (snd item) ?s1"
  have q: "queue (snd ?r) = items" by (simp add: emit_queue[OF assms])
  have "drain prog None s = drain prog None (snd ?r)"
    using drain_step[OF Cons(2)[symmetric], of prog None] by (simp add: run_proc_def Let_def)
  moreover from Cons(1)[of "snd ?r", OF q[symmetric], unfolded q] obtain s' where
    "drain prog None (snd ?r) = Some (Normal, s')" "queue s' = []"
    "processed s' = processed (snd ?r) @ items" "emitted s' = emitted (snd ?r) @ items"
    by blast
  ultimately show ?case using Cons(2)[symmetric] by simp
qed

lemma drain_quiet_custom:
  assumes "\<forall>n p. \<forall>c\<in>set (prog n p). \<not> touches_queue c"
    and "\<forall>e p. \<forall>c\<in>set (f e p). \<not> ptouches_queue c"
  shows "\<exists>c s'. drain prog (Some f) s = Some (c, s') \<and>
           c = (if \<exists>item\<in>set (queue s). praises f item then Thrown else Normal) \<and>
           processed s' = processed s @ pattempted f (queue s) \<and>
           queue s' = drop (length (pattempted f (queue s))) (queue s) \<and>
           ((\<forall>e p. \<forall>c\<in>set (f e p). \<not> is_emit c) \<longrightarrow>
              emitted s' = emitted s \<and> delivered s' = delivered s)"
proof (induction "queue s" arbitrary: s)
  case Nil
  then show ?case by (simp add: drain_empty)
next
  case (Cons item items)
  let ?s1 = "s\<lparr>queue := items, processed := processed s @ [item]\<rparr>"
  let ?r = "exec_pcmds prog (f (fst item) (snd item)) ?s1"
  have q: "queue (snd ?r) = items"
    using assms(2) by (simp add: exec_pcmds_queue[OF assms(1)])
  have c: "fst ?r = (if praises f item then Thrown else Normal)"
    by (simp add: exec_pcmds_completion praises_def)
  have e: "(\<forall>e p. \<forall>c\<in>set (f e p). \<not> is_emit c) \<longrightarrow>
      emitted (snd ?r) = emitted s \<and> delivered (snd ?r) = delivered s"
    by (simp add: exec_pcmds_no_emit)
  have d: "drain prog (Some f) s = (if fst ?r = Thrown then Some ?r else drain prog (Some f) (snd ?r))"
    using drain_step[OF Cons(2)[symmetric], of prog "Some f"] by (simp add: run_proc_def Let_def)
  show ?case
  proof (cases "praises f item")
    case True
    with d c have "drain prog (Some f) s = Some (Thrown, snd ?r)"
      by (metis prod.collapse)
    with True q e show ?thesis using Cons(2)[symmetric] by auto
  next
    case False
    with d c have "drain prog (Some f) s = drain prog (Some f) (snd ?r)" by simp
    moreover from Cons(1)[of "snd ?r", OF q[symmetric], unfolded q] obtain c' s' where
      "drain prog (Some f) (snd ?r) = Some (c', s')"
      "c' = (if \<exists>item\<in>set items. praises f item then Thrown else Normal)"
      "processed s' = processed (snd ?r) @ pattempted f items"
      "queue s' = drop (length (pattempted f items)) items"
      "(\<forall>e p. \<forall>c\<in>set (f e p). \<not> is_emit c) \<longrightarrow>
         emitted s' = emitted (snd ?r) \<and> delivered s' = delivered (snd ?r)"
      by blast
    ultimately show ?thesis using False e Cons(2)[symmetric] by auto
  qed
qed

text \<open>What a drain emits: for each item it passes to the processor, what the processor
  emits for it, and nothing else.\<close>

lemma exec_pcmds_emitted:
  "emitted (snd (exec_pcmds prog cs s)) = emitted s @ emits_of cs"
proof (induction cs arbitrary: s)
  case Nil
  show ?case by simp
next
  case (Cons c cs)
  show ?case
  proof (cases c)
    case (Do x)
    with Cons show ?thesis
      by (cases x)
         (simp_all add: exec_pcmds_Cons exec_cmd_completion del: exec_pcmds.simps(2))
  next
    case (Emit e p)
    with Cons show ?thesis by (simp add: exec_pcmds_Cons del: exec_pcmds.simps(2))
  qed
qed

lemma emits_by_simps:
  "emits_by None = (\<lambda>item. [item])"
  "emits_by (Some f) = (\<lambda>item. emits_of (f (fst item) (snd item)))"
  by (simp_all add: fun_eq_iff emits_by_def)

lemma run_proc_emitted:
  "emitted (snd (run_proc prog proc item s)) = emitted s @ emits_by proc item"
  by (cases proc) (simp_all add: run_proc_def emits_by_def exec_pcmds_emitted)

lemma run_proc_processed [simp]: "processed (snd (run_proc prog proc item s)) = processed s"
  by (cases proc) (simp_all add: run_proc_def)

lemma drain_emitted_new:
  assumes "drain prog proc s = Some r"
  shows "\<exists>new. processed (snd r) = processed s @ new \<and>
               emitted (snd r) = emitted s @ concat (map (emits_by proc) new)"
proof (rule drain.raw_induct[where P = "\<lambda>prog proc s r.
          \<exists>new. processed (snd r) = processed s @ new \<and>
                emitted (snd r) = emitted s @ concat (map (emits_by proc) new)",
        OF _ assms])
  fix d :: "'a program \<Rightarrow> 'a processor option \<Rightarrow> 'a bus \<Rightarrow> (completion \<times> 'a bus) option"
    and prog proc s r
  assume IH: "\<And>prog proc s r. d prog proc s = Some r \<Longrightarrow>
          \<exists>new. processed (snd r) = processed s @ new \<and>
                emitted (snd r) = emitted s @ concat (map (emits_by proc) new)"
  assume eq: "(if 0 < length (queue s)
      then let item = hd (queue s);
               s1 = s\<lparr>queue := tl (queue s), processed := processed s @ [item]\<rparr>;
               r = run_proc prog proc item s1
           in if fst r = Thrown then Some r else d prog proc (snd r)
      else Some (Normal, s)) = Some r"
  show "\<exists>new. processed (snd r) = processed s @ new \<and>
              emitted (snd r) = emitted s @ concat (map (emits_by proc) new)"
  proof (cases "queue s = []")
    case True
    with eq show ?thesis by auto
  next
    case False
    let ?item = "hd (queue s)"
    let ?r = "run_proc prog proc ?item
                (s\<lparr>queue := tl (queue s), processed := processed s @ [?item]\<rparr>)"
    have p: "processed (snd ?r) = processed s @ [?item]" by simp
    have e: "emitted (snd ?r) = emitted s @ emits_by proc ?item"
      by (simp add: run_proc_emitted)
    show ?thesis
    proof (cases "fst ?r = Thrown")
      case True
      with eq False have "r = ?r" by (auto simp add: Let_def)
      with p e have "processed (snd r) = processed s @ [?item] \<and>
          emitted (snd r) = emitted s @ concat (map (emits_by proc) [?item])"
        by simp
      then show ?thesis by blast
    next
      case nt: False
      with eq False have "d prog proc (snd ?r) = Some r" by (simp add: Let_def)
      from IH[OF this] obtain new where
        "processed (snd r) = processed (snd ?r) @ new"
        "emitted (snd r) = emitted (snd ?r) @ concat (map (emits_by proc) new)"
        by blast
      with p e have "processed (snd r) = processed s @ (?item # new) \<and>
          emitted (snd r) = emitted s @ concat (map (emits_by proc) (?item # new))"
        by simp
      then show ?thesis by blast
    qed
  qed
qed

lemma drain_emitted:
  assumes "drain prog proc s = Some (c, s')"
  shows "emitted s' =
           emitted s @ concat (map (emits_by proc) (drop (length (processed s)) (processed s')))"
  using drain_emitted_new[OF assms] by auto

subsection \<open>The wrapper of once\<close>

text \<open>Nothing but the call of \<^verbatim>\<open>once\<close> that made it registers a wrapper, and the wrapper
  unsubscribes itself when its handler has returned.\<close>

lemma deliveries_frame [simp]:
  "deliveries h (s\<lparr>queue := q\<rparr>) = deliveries h s"
  "deliveries h (s\<lparr>processed := q\<rparr>) = deliveries h s"
  "deliveries h (s\<lparr>emitted := m\<rparr>) = deliveries h s"
  "deliveries h (s\<lparr>errors := x\<rparr>) = deliveries h s"
  "deliveries h (s\<lparr>delivered := delivered s @ [(e, h', p)]\<rparr>) =
     (if h' = h then deliveries h s + 1 else deliveries h s)"
  by (simp_all add: deliveries_def)

lemma deliveries_cong: "delivered s' = delivered s \<Longrightarrow> deliveries h s' = deliveries h s"
  by (simp add: deliveries_def)

lemma handlers_of_call_tunsub_subset:
  "set (handlers_of (call_tunsub t s) e) \<subseteq> set (handlers_of s e)"
  by (cases t) (auto simp: handlers_of_call_tunsub)

lemma handlers_of_call_unsub_subset:
  "set (handlers_of (call_unsub u s) e) \<subseteq> set (handlers_of s e)"
proof -
  obtain t k h where u: "u = BusUnsub t k h" by (cases u)
  have "handlers_of (call_unsub u s) e = handlers_of (call_tunsub t s) e"
    by (simp add: u handlers_of_def)
  then show ?thesis using handlers_of_call_tunsub_subset[of t s e] by simp
qed

lemma handlers_of_off_subset: "set (handlers_of (off e' h s) e) \<subseteq> set (handlers_of s e)"
proof (cases "registered s e' h")
  case None
  then show ?thesis by (simp add: off_not_registered)
next
  case (Some t)
  then show ?thesis by (simp add: off_registered handlers_of_call_unsub_subset)
qed

lemma handlers_of_clear [simp]: "handlers_of (clear s) e = []"
  by (simp add: handlers_of_def)

lemma handlers_of_enqueue [simp]: "handlers_of (enqueue e' p s) = handlers_of s"
  by (simp add: handlers_of_def fun_eq_iff)

lemma wrapper_not_added_by_exec_cmd:
  assumes "OnceWrapper k n \<notin> set (handlers_of s e)"
  shows "OnceWrapper k n \<notin> set (handlers_of (snd (exec_cmd c s)) e)"
proof (cases c)
  case (On e' m)
  with assms show ?thesis by (auto simp: handlers_of_on set_add_def)
next
  case (Off e' m)
  with assms show ?thesis using handlers_of_off_subset[of e' "Fn m" s e] by auto
next
  case (Unsubscribe e' h)
  with assms show ?thesis
    using handlers_of_call_unsub_subset[of "BusUnsub (TransportUnsub e' h) (getEventKey e') h" s e]
    by auto
qed (use assms in simp_all)

lemma wrapper_not_added_by_exec_cmds:
  assumes "OnceWrapper k n \<notin> set (handlers_of s e)"
  shows "OnceWrapper k n \<notin> set (handlers_of (snd (exec_cmds cs s)) e)"
  using assms
  by (induction cs arbitrary: s)
     (simp_all add: exec_cmds_Cons wrapper_not_added_by_exec_cmd del: exec_cmds.simps(2))

lemma handlers_of_once:
  "handlers_of (snd (once e' m s)) e =
     (if e = e' then set_add (OnceWrapper (length (onceCells s)) m) (handlers_of s e')
      else handlers_of s e)"
  using handlers_of_on[of e' "OnceWrapper (length (onceCells s)) m"
      "s\<lparr>onceCells := onceCells s @ [None]\<rparr>" e]
  by (simp add: once_def Let_def split_beta)

lemma onceCells_once:
  "onceCells (snd (once e m s)) =
     onceCells s @ [Some (BusUnsub (TransportUnsub e (OnceWrapper (length (onceCells s)) m))
        (getEventKey e) (OnceWrapper (length (onceCells s)) m))]"
  by (simp add: once_def Let_def split_beta)

lemma handlers_allocated:
  "well_formed s \<Longrightarrow> h \<in> set (handlers_of s e) \<Longrightarrow> allocated (length (onceCells s)) h"
proof -
  assume w: "well_formed s" and h: "h \<in> set (handlers_of s e)"
  from h obtain hs where hs: "map_of (listeners s) e = Some hs" "h \<in> set hs"
    by (cases "map_of (listeners s) e") (auto simp: handlers_of_def)
  from w have "list_all (\<lambda>(e, hs). distinct hs \<and> list_all (allocated (length (onceCells s))) hs)
      (listeners s)"
    by (simp add: well_formed_def sets_ok_def)
  from list_all_map_of[OF this hs(1)] hs(2) show ?thesis
    by (simp add: list_all_iff)
qed

lemma wrapper_ok_update [simp]:
  "wrapper_ok E k n (s\<lparr>delivered := d\<rparr>) = wrapper_ok E k n s"
  "wrapper_ok E k n (s\<lparr>emitted := m\<rparr>) = wrapper_ok E k n s"
  "wrapper_ok E k n (s\<lparr>errors := x\<rparr>) = wrapper_ok E k n s"
  "wrapper_ok E k n (s\<lparr>queue := q\<rparr>) = wrapper_ok E k n s"
  "wrapper_ok E k n (s\<lparr>processed := q\<rparr>) = wrapper_ok E k n s"
  by (simp_all add: wrapper_ok_def well_formed_def)

lemma wrapper_ok_exec_cmd: "wrapper_ok E k n s \<Longrightarrow> wrapper_ok E k n (snd (exec_cmd c s))"
  by (simp add: wrapper_ok_def well_formed_exec_cmd wrapper_not_added_by_exec_cmd)

lemma wrapper_ok_exec_cmds: "wrapper_ok E k n s \<Longrightarrow> wrapper_ok E k n (snd (exec_cmds cs s))"
  by (simp add: wrapper_ok_def well_formed_exec_cmds wrapper_not_added_by_exec_cmds)

lemma wrapper_ok_call_unsub: "wrapper_ok E k n s \<Longrightarrow> wrapper_ok E k n (call_unsub u s)"
  using handlers_of_call_unsub_subset[of u s]
  by (auto simp add: wrapper_ok_def well_formed_call_unsub)

lemma invoke_result:
  "snd (invoke prog h p s) = snd (exec_cmds (prog (runs h) p) s) \<or>
   (\<exists>u. snd (invoke prog h p s) = call_unsub u (snd (exec_cmds (prog (runs h) p) s)))"
  by (cases h; cases "exec_cmds (prog (runs h) p) s")
     (auto split: completion.splits option.splits)

lemma wrapper_ok_invoke: "wrapper_ok E k n s \<Longrightarrow> wrapper_ok E k n (snd (invoke prog h p s))"
  using invoke_result[of prog h p s]
  by (auto simp: wrapper_ok_exec_cmds wrapper_ok_call_unsub)

lemma wrapper_not_added_by_invoke:
  assumes "OnceWrapper k n \<notin> set (handlers_of s e)"
  shows "OnceWrapper k n \<notin> set (handlers_of (snd (invoke prog h p s)) e)"
proof -
  let ?s' = "snd (exec_cmds (prog (runs h) p) s)"
  have a: "OnceWrapper k n \<notin> set (handlers_of ?s' e)"
    by (rule wrapper_not_added_by_exec_cmds[OF assms])
  then have "OnceWrapper k n \<notin> set (handlers_of (call_unsub u ?s') e)" for u
    using handlers_of_call_unsub_subset[of u ?s' e] by blast
  with a show ?thesis using invoke_result[of prog h p s] by auto
qed

lemma invoke_deliveries [simp]: "deliveries h' (snd (invoke prog h p s)) = deliveries h' s"
  by (simp add: deliveries_def)

lemma invoke_wrapper_unsubscribes:
  assumes "wrapper_ok E k n s" and "\<forall>p. Throw \<notin> set (prog n p)"
  shows "OnceWrapper k n \<notin> set (handlers_of (snd (invoke prog (OnceWrapper k n) p s)) E)"
proof -
  let ?w = "OnceWrapper k n"
  let ?s' = "snd (exec_cmds (prog n p) s)"
  have c: "fst (exec_cmds (prog n p) s) = Normal"
    using assms(2) by (simp add: exec_cmds_completion)
  have "wrapper_ok E k n ?s'" using assms(1) by (rule wrapper_ok_exec_cmds)
  then have k: "k < length (onceCells ?s')"
    and u: "onceCells ?s' ! k = Some (BusUnsub (TransportUnsub E ?w) (getEventKey E) ?w)"
    by (simp_all add: wrapper_ok_def)
  have "snd (invoke prog ?w p s) = call_unsub (BusUnsub (TransportUnsub E ?w) (getEventKey E) ?w) ?s'"
    using c k u by (cases "exec_cmds (prog n p) s") auto
  then show ?thesis by (simp add: handlers_of_call_unsub)
qed

lemma dispatch_once:
  assumes nr: "\<forall>p. Throw \<notin> set (prog n p)"
  shows "wrapper_ok E k n s \<Longrightarrow> distinct hs \<Longrightarrow> (OnceWrapper k n \<in> set hs \<longrightarrow> e = E) \<Longrightarrow>
    wrapper_ok E k n (snd (dispatch prog e hs p s)) \<and>
    deliveries (OnceWrapper k n) s \<le> deliveries (OnceWrapper k n) (snd (dispatch prog e hs p s)) \<and>
    (OnceWrapper k n \<notin> set hs \<longrightarrow>
       deliveries (OnceWrapper k n) (snd (dispatch prog e hs p s)) = deliveries (OnceWrapper k n) s \<and>
       (OnceWrapper k n \<notin> set (handlers_of s E) \<longrightarrow>
          OnceWrapper k n \<notin> set (handlers_of (snd (dispatch prog e hs p s)) E))) \<and>
    (OnceWrapper k n \<in> set hs \<longrightarrow>
       deliveries (OnceWrapper k n) (snd (dispatch prog e hs p s)) \<le> deliveries (OnceWrapper k n) s + 1 \<and>
       (deliveries (OnceWrapper k n) (snd (dispatch prog e hs p s)) = deliveries (OnceWrapper k n) s + 1 \<longrightarrow>
          OnceWrapper k n \<notin> set (handlers_of (snd (dispatch prog e hs p s)) E)))"
proof (induction hs arbitrary: s)
  case Nil
  then show ?case by simp
next
  case (Cons h hs)
  let ?w = "OnceWrapper k n"
  let ?s1 = "s\<lparr>delivered := delivered s @ [(e, h, p)]\<rparr>"
  let ?s2 = "snd (invoke prog h p ?s1)"
  have ok2: "wrapper_ok E k n ?s2" using Cons(2) by (simp add: wrapper_ok_invoke)
  have d2: "deliveries ?w ?s2 = (if h = ?w then deliveries ?w s + 1 else deliveries ?w s)"
    by simp
  have dh: "distinct hs" and hn: "h \<notin> set hs" using Cons(3) by simp_all
  show ?case
  proof (cases "h = ?w")
    case True
    then have e: "e = E" using Cons(4) by simp
    have nw: "?w \<notin> set hs" using hn True by simp
    have r: "\<not> raises prog p h" using nr True by simp
    have g2: "?w \<notin> set (handlers_of ?s2 E)"
      using invoke_wrapper_unsubscribes[where prog = prog and s = ?s1 and E = E and k = k and n = n and p = p]
        nr Cons(2) True by simp
    from Cons(1)[OF ok2 dh] nw
    have "wrapper_ok E k n (snd (dispatch prog e hs p ?s2))"
      "deliveries ?w (snd (dispatch prog e hs p ?s2)) = deliveries ?w ?s2"
      "?w \<notin> set (handlers_of ?s2 E) \<longrightarrow> ?w \<notin> set (handlers_of (snd (dispatch prog e hs p ?s2)) E)"
      by simp_all
    with g2 d2 True r show ?thesis by (simp add: dispatch_Cons)
  next
    case False
    have g2: "?w \<notin> set (handlers_of s E) \<longrightarrow> ?w \<notin> set (handlers_of ?s2 E)"
      using wrapper_not_added_by_invoke[of k n ?s1 E prog h p] by simp
    have m: "?w \<in> set hs \<longrightarrow> e = E" using Cons(4) by simp
    from Cons(1)[OF ok2 dh m]
    have IH: "wrapper_ok E k n (snd (dispatch prog e hs p ?s2)) \<and>
      deliveries ?w ?s2 \<le> deliveries ?w (snd (dispatch prog e hs p ?s2)) \<and>
      (?w \<notin> set hs \<longrightarrow>
         deliveries ?w (snd (dispatch prog e hs p ?s2)) = deliveries ?w ?s2 \<and>
         (?w \<notin> set (handlers_of ?s2 E) \<longrightarrow>
            ?w \<notin> set (handlers_of (snd (dispatch prog e hs p ?s2)) E))) \<and>
      (?w \<in> set hs \<longrightarrow>
         deliveries ?w (snd (dispatch prog e hs p ?s2)) \<le> deliveries ?w ?s2 + 1 \<and>
         (deliveries ?w (snd (dispatch prog e hs p ?s2)) = deliveries ?w ?s2 + 1 \<longrightarrow>
            ?w \<notin> set (handlers_of (snd (dispatch prog e hs p ?s2)) E)))" .
    show ?thesis
    proof (cases "raises prog p h")
      case True
      with ok2 d2 g2 False show ?thesis by (simp add: dispatch_Cons)
    next
      case nr': False
      with IH d2 g2 False show ?thesis by (simp add: dispatch_Cons)
    qed
  qed
qed

lemma emit_once_rel:
  assumes nr: "\<forall>p. Throw \<notin> set (prog n p)"
  shows "once_rel E k n s (snd (emit prog e p s))"
  unfolding once_rel_def
proof
  let ?w = "OnceWrapper k n"
  let ?s1 = "s\<lparr>emitted := emitted s @ [(e, p)]\<rparr>"
  let ?s2 = "snd (dispatch prog e (handlers_of s e) p ?s1)"
  let ?s' = "snd (emit prog e p s)"
  assume ok: "wrapper_ok E k n s"
  then have ok1: "wrapper_ok E k n ?s1" by simp
  have d: "distinct (handlers_of s e)"
    using ok by (simp add: wrapper_ok_def handlers_of_distinct)
  have m: "?w \<in> set (handlers_of s e) \<longrightarrow> e = E"
    using ok by (auto simp: wrapper_ok_def)
  note D = dispatch_once[where prog = prog and n = n and p = p, OF nr ok1 d m]
  have s': "wrapper_ok E k n ?s' = wrapper_ok E k n ?s2"
    "deliveries ?w ?s' = deliveries ?w ?s2" "handlers_of ?s' = handlers_of ?s2"
    by (simp_all add: emit_dispatch)
  have g: "?w \<notin> set (handlers_of s E) \<longrightarrow> ?w \<notin> set (handlers_of s e)"
    using m by auto
  show "wrapper_ok E k n ?s' \<and>
        deliveries ?w s \<le> deliveries ?w ?s' \<and>
        deliveries ?w ?s' \<le> deliveries ?w s + 1 \<and>
        (deliveries ?w ?s' = deliveries ?w s + 1 \<longrightarrow> ?w \<notin> set (handlers_of ?s' E)) \<and>
        (?w \<notin> set (handlers_of s E) \<longrightarrow>
           ?w \<notin> set (handlers_of ?s' E) \<and> deliveries ?w ?s' = deliveries ?w s)"
    unfolding s' using D g by (cases "?w \<in> set (handlers_of s e)") auto
qed

lemma wrapper_ok_once: "wrapper_ok E k n s \<Longrightarrow> wrapper_ok E k n (snd (once e m s))"
  by (auto simp add: wrapper_ok_def well_formed_once onceCells_once nth_append handlers_of_once
      set_add_def)

lemma once_rel_trans:
  "once_rel E k n a b \<Longrightarrow> once_rel E k n b c \<Longrightarrow> once_rel E k n a c"
  unfolding once_rel_def by (intro impI) force

lemma call_closed_once_rel:
  assumes nr: "\<forall>p. Throw \<notin> set (prog n p)"
  shows "call_closed prog (once_rel E k n)"
  unfolding call_closed_def
proof (intro conjI allI impI)
  fix a b c :: "'a bus"
  assume "once_rel E k n a b" "once_rel E k n b c"
  then show "once_rel E k n a c" by (rule once_rel_trans)
next
  fix c and s :: "'a bus"
  show "once_rel E k n s (snd (exec_cmd c s))"
    by (simp add: once_rel_def wrapper_ok_exec_cmd wrapper_not_added_by_exec_cmd
        deliveries_cong[of "snd (exec_cmd c s)" s])
next
  fix e m and s :: "'a bus"
  show "once_rel E k n s (snd (once e m s))"
    unfolding once_rel_def
  proof
    assume ok: "wrapper_ok E k n s"
    then have "k < length (onceCells s)" by (simp add: wrapper_ok_def)
    then have "OnceWrapper k n \<notin> set (handlers_of s E) \<longrightarrow>
        OnceWrapper k n \<notin> set (handlers_of (snd (once e m s)) E)"
      by (simp add: handlers_of_once set_add_def)
    moreover have "deliveries (OnceWrapper k n) (snd (once e m s)) = deliveries (OnceWrapper k n) s"
      by (simp add: deliveries_def)
    ultimately show "wrapper_ok E k n (snd (once e m s)) \<and>
        deliveries (OnceWrapper k n) s \<le> deliveries (OnceWrapper k n) (snd (once e m s)) \<and>
        deliveries (OnceWrapper k n) (snd (once e m s)) \<le> deliveries (OnceWrapper k n) s + 1 \<and>
        (deliveries (OnceWrapper k n) (snd (once e m s)) = deliveries (OnceWrapper k n) s + 1 \<longrightarrow>
           OnceWrapper k n \<notin> set (handlers_of (snd (once e m s)) E)) \<and>
        (OnceWrapper k n \<notin> set (handlers_of s E) \<longrightarrow>
           OnceWrapper k n \<notin> set (handlers_of (snd (once e m s)) E) \<and>
           deliveries (OnceWrapper k n) (snd (once e m s)) = deliveries (OnceWrapper k n) s)"
      using wrapper_ok_once[OF ok] by simp
  qed
next
  fix e p and s :: "'a bus"
  show "once_rel E k n s (snd (emit prog e p s))"
    by (rule emit_once_rel[where prog = prog and n = n, OF nr])
qed (simp_all add: once_rel_def)

lemma fst_once [simp]:
  "fst (once e n s) =
     BusUnsub (TransportUnsub e (OnceWrapper (length (onceCells s)) n)) (getEventKey e)
       (OnceWrapper (length (onceCells s)) n)"
  by (simp add: once_def Let_def split_beta)

lemma wrapper_ok_after_once:
  assumes "well_formed s"
  shows "wrapper_ok E (length (onceCells s)) n (snd (once E n s))"
proof -
  have "OnceWrapper (length (onceCells s)) n \<notin> set (handlers_of s e)" for e
    using handlers_allocated[OF assms, of "OnceWrapper (length (onceCells s)) n" e] by auto
  then show ?thesis
    using assms by (simp add: wrapper_ok_def well_formed_once onceCells_once handlers_of_once)
qed

text \<open>
  What \<^verbatim>\<open>once\<close> does achieve. For a handler that never raises, whatever calls follow the
  registration, its wrapper is invoked at most once.
\<close>

lemma once_fires_at_most_once:
  assumes "well_formed s" and "\<forall>p. Throw \<notin> set (prog n p)"
    and "run prog calls (snd (once E n s)) = Some r"
  shows "deliveries (OnceWrapper (length (onceCells s)) n) (snd r) \<le>
         deliveries (OnceWrapper (length (onceCells s)) n) s + 1"
proof -
  have "once_rel E (length (onceCells s)) n (snd (once E n s)) (snd r)"
    by (rule call_closed_run[OF call_closed_once_rel[where prog = prog and n = n, OF assms(2)]
          assms(3)])
  moreover have "deliveries (OnceWrapper (length (onceCells s)) n) (snd (once E n s)) =
      deliveries (OnceWrapper (length (onceCells s)) n) s"
    by (simp add: deliveries_def)
  ultimately show ?thesis
    using wrapper_ok_after_once[OF assms(1), of E n] by (simp add: once_rel_def)
qed

lemma dispatch_absent:
  "OnceWrapper k n \<notin> set hs \<Longrightarrow>
   deliveries (OnceWrapper k n) (snd (dispatch prog e hs p s)) = deliveries (OnceWrapper k n) s \<and>
   ((\<forall>e'. OnceWrapper k n \<notin> set (handlers_of s e')) \<longrightarrow>
      (\<forall>e'. OnceWrapper k n \<notin> set (handlers_of (snd (dispatch prog e hs p s)) e')))"
proof (induction hs arbitrary: s)
  case Nil
  then show ?case by simp
next
  case (Cons h hs)
  let ?w = "OnceWrapper k n"
  let ?s1 = "s\<lparr>delivered := delivered s @ [(e, h, p)]\<rparr>"
  let ?s2 = "snd (invoke prog h p ?s1)"
  from Cons(2) have hw: "h \<noteq> ?w" and nw: "?w \<notin> set hs" by auto
  have d2: "deliveries ?w ?s2 = deliveries ?w s" using hw by simp
  have g2: "(\<forall>e'. ?w \<notin> set (handlers_of s e')) \<longrightarrow> (\<forall>e'. ?w \<notin> set (handlers_of ?s2 e'))"
    using wrapper_not_added_by_invoke[of k n ?s1 _ prog h p] by simp
  have IH: "deliveries ?w (snd (dispatch prog e hs p ?s2)) = deliveries ?w ?s2"
    "(\<forall>e'. ?w \<notin> set (handlers_of ?s2 e')) \<longrightarrow>
      (\<forall>e'. ?w \<notin> set (handlers_of (snd (dispatch prog e hs p ?s2)) e'))"
    using Cons(1)[OF nw, of ?s2] by blast+
  show ?case
  proof (cases "raises prog p h")
    case True
    then have "snd (dispatch prog e (h # hs) p s) = ?s2" by (simp add: dispatch_Cons)
    with d2 g2 show ?thesis by simp
  next
    case False
    then have "snd (dispatch prog e (h # hs) p s) = snd (dispatch prog e hs p ?s2)"
      by (simp add: dispatch_Cons)
    with IH d2 g2 show ?thesis by simp
  qed
qed

lemma emit_gone_rel: "gone_rel k n s (snd (emit prog e p s))"
  unfolding gone_rel_def
proof
  let ?w = "OnceWrapper k n"
  let ?s1 = "s\<lparr>emitted := emitted s @ [(e, p)]\<rparr>"
  let ?s2 = "snd (dispatch prog e (handlers_of s e) p ?s1)"
  let ?s' = "snd (emit prog e p s)"
  assume a: "k < length (onceCells s) \<and> (\<forall>e. ?w \<notin> set (handlers_of s e))"
  then have "?w \<notin> set (handlers_of s e)" by blast
  from dispatch_absent[OF this, of prog e p ?s1] a
  have "deliveries ?w ?s2 = deliveries ?w s" "\<forall>e'. ?w \<notin> set (handlers_of ?s2 e')"
    by simp_all
  moreover have "deliveries ?w ?s' = deliveries ?w ?s2" "handlers_of ?s' = handlers_of ?s2"
    by (simp_all add: emit_dispatch)
  ultimately show "k < length (onceCells ?s') \<and> (\<forall>e. ?w \<notin> set (handlers_of ?s' e)) \<and>
      deliveries ?w ?s' = deliveries ?w s"
    using a by simp
qed

lemma call_closed_gone_rel: "call_closed prog (gone_rel k n)"
  unfolding call_closed_def
proof (intro conjI allI impI)
  fix a b c :: "'a bus"
  assume "gone_rel k n a b" "gone_rel k n b c"
  then show "gone_rel k n a c" unfolding gone_rel_def by simp
next
  fix c and s :: "'a bus"
  show "gone_rel k n s (snd (exec_cmd c s))"
    by (simp add: gone_rel_def wrapper_not_added_by_exec_cmd
        deliveries_cong[of "snd (exec_cmd c s)" s])
next
  fix e m and s :: "'a bus"
  show "gone_rel k n s (snd (once e m s))"
    by (simp add: gone_rel_def handlers_of_once set_add_def onceCells_once
        deliveries_cong[of "snd (once e m s)" s])
next
  fix e p and s :: "'a bus"
  show "gone_rel k n s (snd (emit prog e p s))" by (rule emit_gone_rel)
qed (simp_all add: gone_rel_def)

lemma wrapper_ok_other:
  "wrapper_ok E k n s \<Longrightarrow> e \<noteq> E \<Longrightarrow> OnceWrapper k n \<notin> set (handlers_of s e)"
  by (simp add: wrapper_ok_def)

lemma wrapper_ok_length: "wrapper_ok E k n s \<Longrightarrow> k < length (onceCells s)"
  by (simp add: wrapper_ok_def)

text \<open>
  And a wrapper whose unsubscribe function is called right after the registration is
  never invoked, whatever calls follow and whatever the handler does.
\<close>

lemma once_unsubscribed_never_fires:
  assumes "well_formed s"
    and "run prog calls (call_unsub (fst (once E n s)) (snd (once E n s))) = Some r"
  shows "deliveries (OnceWrapper (length (onceCells s)) n) (snd r) =
         deliveries (OnceWrapper (length (onceCells s)) n) s"
proof -
  define k where "k = length (onceCells s)"
  define s0 where "s0 = snd (once E n s)"
  define u where "u = BusUnsub (TransportUnsub E (OnceWrapper k n)) (getEventKey E) (OnceWrapper k n)"
  define s1 where "s1 = call_unsub u s0"
  have fu: "fst (once E n s) = u" by (simp add: u_def k_def)
  have ok0: "wrapper_ok E k n s0"
    unfolding k_def s0_def by (rule wrapper_ok_after_once[OF assms(1)])
  have ok: "wrapper_ok E k n s1"
    unfolding s1_def by (rule wrapper_ok_call_unsub[OF ok0])
  have "handlers_of s1 E = removeAll (OnceWrapper k n) (handlers_of s0 E)"
    unfolding s1_def u_def by (simp add: handlers_of_call_unsub)
  then have gE: "OnceWrapper k n \<notin> set (handlers_of s1 E)" by simp
  have g: "\<forall>e. OnceWrapper k n \<notin> set (handlers_of s1 e)"
  proof
    fix e
    show "OnceWrapper k n \<notin> set (handlers_of s1 e)"
      using gE wrapper_ok_other[OF ok, of e] by (cases "e = E") simp_all
  qed
  have kl: "k < length (onceCells s1)" by (rule wrapper_ok_length[OF ok])
  have run1: "run prog calls s1 = Some r"
    using assms(2) unfolding s1_def s0_def fu .
  have "gone_rel k n s1 (snd r)"
    by (rule call_closed_run[OF call_closed_gone_rel run1])
  then have "deliveries (OnceWrapper k n) (snd r) = deliveries (OnceWrapper k n) s1"
    unfolding gone_rel_def using conjI[OF kl g] by (elim impE) simp_all
  moreover have "delivered s1 = delivered s"
    unfolding s1_def s0_def by simp
  ultimately show ?thesis unfolding k_def by (simp only: deliveries_def)
qed


section \<open>The claims\<close>

text \<open>
  C1 (amended). In a well-formed state (every state the operations of the bus lead to
  from a new bus), \<^verbatim>\<open>emit(E, P)\<close> invokes, within the call, the handlers registered for
  \<open>E\<close> in registration order, each once and with \<open>P\<close> itself, provided none of them
  raises; it returns normally and reports no error. With no handler registered for \<open>E\<close>
  it invokes nothing and changes nothing.
\<close>

theorem emit_invokes_registered_handlers:
  assumes "well_formed s"
    and "\<forall>h\<in>set (handlers_of s E). \<not> raises prog P h"
  shows "fst (emit prog E P s) = Normal \<and>
         delivered (snd (emit prog E P s)) = delivered s @ map (\<lambda>h. (E, h, P)) (handlers_of s E) \<and>
         distinct (handlers_of s E) \<and>
         errors (snd (emit prog E P s)) = errors s \<and>
         (handlers_of s E = [] \<longrightarrow> snd (emit prog E P s) = s\<lparr>emitted := emitted s @ [(E, P)]\<rparr>)"
proof -
  have "delivered (snd (emit prog E P s)) = delivered s @ map (\<lambda>h. (E, h, P)) (handlers_of s E)"
    using assms(2) by (simp add: emit_delivered attempted_no_raise)
  moreover have "distinct (handlers_of s E)"
    using assms(1) by (rule handlers_of_distinct)
  moreover have "errors (snd (emit prog E P s)) = errors s"
    using assms(2) by (simp add: emit_errors)
  moreover have "handlers_of s E = [] \<longrightarrow> snd (emit prog E P s) = s\<lparr>emitted := emitted s @ [(E, P)]\<rparr>"
    by (simp add: emit_dispatch)
  ultimately show ?thesis by simp
qed

theorem emit_invokes_registered_handlers_witness:
  "well_formed c1_bus \<and> handlers_of c1_bus (Str ''e'') = [Fn 0, Fn 1] \<and>
   delivered (snd (emit c1_quiet_prog (Str ''e'') 7 c1_bus)) = [(Str ''e'', Fn 0, 7), (Str ''e'', Fn 1, 7)]"
proof -
  have w: "well_formed c1_bus" by code_simp
  have h: "handlers_of c1_bus (Str ''e'') = [Fn 0, Fn 1]" by code_simp
  have d: "delivered c1_bus = []" by code_simp
  have r: "\<forall>h\<in>set (handlers_of c1_bus (Str ''e'')). \<not> raises c1_quiet_prog 7 h"
    by (simp add: h c1_quiet_prog_def)
  from emit_invokes_registered_handlers[OF w r] show ?thesis
    by (simp add: w h d)
qed

theorem emit_skips_handlers_after_raise:
  "handlers_of c1_bus (Str ''e'') = [Fn 0, Fn 1] \<and> delivered c1_bus = [] \<and>
   delivered (snd (emit c1_prog (Str ''e'') 7 c1_bus)) = [(Str ''e'', Fn 0, 7)]"
  by code_simp

text \<open>
  C2 (amended). \<^verbatim>\<open>enqueue\<close> appends to the tail of the one queue. \<^verbatim>\<open>drain(processor)\<close>
  removes the item at the head and passes it to the processor, once per item and in the
  order of the queue across all event names, until the queue is empty or the processor
  raises: a processor that raises ends the drain with its exception, and the items behind
  stay queued. \<^verbatim>\<open>drain()\<close> emits each item it takes from the queue and nothing else, and
  the default processor never raises. With a custom processor no default emission occurs
  for any item: the drain emits what the processor's own calls of \<^verbatim>\<open>emit\<close> emit and
  nothing else, so with a processor that does not call \<^verbatim>\<open>emit\<close> nothing is emitted and
  no handler runs. On an empty queue \<^verbatim>\<open>drain\<close> returns at once and changes nothing.
  (The drain returns when nothing it runs enqueues or clears; whenever it returns, and
  the queue was not cleared meanwhile, the items went to the processor in the order of
  the queue.)
\<close>

theorem drain_processes_queue_in_order:
  "((\<forall>n p. \<forall>c\<in>set (prog n p). \<not> touches_queue c) \<longrightarrow>
      (\<exists>s'. drain prog None s = Some (Normal, s') \<and> queue s' = [] \<and>
            processed s' = processed s @ queue s \<and> emitted s' = emitted s @ queue s)) \<and>
   ((\<forall>n p. \<forall>c\<in>set (prog n p). \<not> touches_queue c) \<and>
    (\<forall>e p. \<forall>c\<in>set (f e p). \<not> ptouches_queue c) \<longrightarrow>
      (\<exists>c s'. drain prog (Some f) s = Some (c, s') \<and>
         c = (if \<exists>item\<in>set (queue s). praises f item then Thrown else Normal) \<and>
         processed s' = processed s @ pattempted f (queue s) \<and>
         queue s' = drop (length (pattempted f (queue s))) (queue s) \<and>
         ((\<forall>e p. \<forall>c\<in>set (f e p). \<not> is_emit c) \<longrightarrow>
            emitted s' = emitted s \<and> delivered s' = delivered s))) \<and>
   (drain prog None s = Some (c, s') \<longrightarrow>
      emitted s' = emitted s @ drop (length (processed s)) (processed s')) \<and>
   (drain prog (Some f) s = Some (c, s') \<longrightarrow>
      emitted s' =
        emitted s @
        concat (map (\<lambda>item. emits_of (f (fst item) (snd item)))
                  (drop (length (processed s)) (processed s')))) \<and>
   (drain prog proc s = Some (c, s') \<and> clears s' = clears s \<longrightarrow>
      processed s' @ queue s' =
        processed s @ queue s @ drop (length (enqueued s)) (enqueued s')) \<and>
   (queue s = [] \<longrightarrow> drain prog proc s = Some (Normal, s)) \<and>
   queue (enqueue e p s) = queue s @ [(e, p)]"
proof -
  have "drain prog None s = Some (c, s') \<longrightarrow>
      emitted s' = emitted s @ drop (length (processed s)) (processed s')"
    using drain_emitted[of prog None s c s'] by (simp add: emits_by_simps)
  moreover have "drain prog (Some f) s = Some (c, s') \<longrightarrow>
      emitted s' =
        emitted s @
        concat (map (\<lambda>item. emits_of (f (fst item) (snd item)))
                  (drop (length (processed s)) (processed s')))"
    using drain_emitted[of prog "Some f" s c s'] by (simp add: emits_by_simps)
  moreover
  have "drain prog proc s = Some (c, s') \<and> clears s' = clears s \<longrightarrow>
      processed s' @ queue s' =
        processed s @ queue s @ drop (length (enqueued s)) (enqueued s')"
    using step_closed_drain[OF step_closed_fifo_step, of prog proc s "(c, s')"]
      fifo_step_processed[of s s']
    by auto
  ultimately show ?thesis
    using drain_quiet_default[of prog s] drain_quiet_custom[of prog f s]
    by (simp add: drain_empty)
qed

theorem drain_processes_queue_in_order_witness:
  "queue c2_bus = [(Str ''a'', 1), (Str ''b'', 2)] \<and>
   drain c2_prog None c2_bus = Some (Normal, c2_done) \<and>
   queue c2_done = [] \<and>
   processed c2_done = [(Str ''a'', 1), (Str ''b'', 2)] \<and>
   emitted c2_done = [(Str ''a'', 1), (Str ''b'', 2)] \<and>
   drain c2_prog (Some c2_silent_proc) c2_bus = Some (Normal, c2_silent_done) \<and>
   queue c2_silent_done = [] \<and>
   processed c2_silent_done = [(Str ''a'', 1), (Str ''b'', 2)] \<and>
   emitted c2_silent_done = [] \<and> delivered c2_silent_done = [] \<and>
   drain c2_prog (Some c2_emitting_proc) c2_bus = Some (Normal, c2_emitting_done) \<and>
   processed c2_emitting_done = [(Str ''a'', 1), (Str ''b'', 2)] \<and>
   emitted c2_emitting_done = [(Str ''x'', 1), (Str ''x'', 2)]"
proof -
  have q: "queue c2_bus = [(Str ''a'', 1), (Str ''b'', 2)]" and p: "processed c2_bus = []"
    and m: "emitted c2_bus = []" and l: "delivered c2_bus = []"
    by code_simp+
  have d: "drain c2_prog None c2_bus = Some (Normal, c2_done)" by code_simp
  have d': "drain c2_prog (Some c2_silent_proc) c2_bus = Some (Normal, c2_silent_done)"
    by code_simp
  have h: "\<forall>n p. \<forall>c\<in>set (c2_prog n p). \<not> touches_queue c" by (simp add: c2_prog_def)
  have f: "\<forall>e p. \<forall>c\<in>set (c2_silent_proc e p). \<not> ptouches_queue c"
    by (simp add: c2_silent_proc_def)
  have n: "\<forall>e p. \<forall>c\<in>set (c2_silent_proc e p). \<not> is_emit c"
    by (simp add: c2_silent_proc_def)
  from drain_processes_queue_in_order[where prog = c2_prog and s = c2_bus,
      THEN conjunct1, THEN mp, OF h]
  obtain s' where "drain c2_prog None c2_bus = Some (Normal, s')" "queue s' = []"
    "processed s' = processed c2_bus @ queue c2_bus" "emitted s' = emitted c2_bus @ queue c2_bus"
    by blast
  with d have 1: "queue c2_done = []" "processed c2_done = processed c2_bus @ queue c2_bus"
    "emitted c2_done = emitted c2_bus @ queue c2_bus"
    by simp_all
  from drain_processes_queue_in_order[where prog = c2_prog and s = c2_bus and f = c2_silent_proc,
      THEN conjunct2, THEN conjunct1, THEN mp, OF conjI[OF h f]] n
  obtain c s'' where "drain c2_prog (Some c2_silent_proc) c2_bus = Some (c, s'')"
    "processed s'' = processed c2_bus @ pattempted c2_silent_proc (queue c2_bus)"
    "queue s'' = drop (length (pattempted c2_silent_proc (queue c2_bus))) (queue c2_bus)"
    "emitted s'' = emitted c2_bus" "delivered s'' = delivered c2_bus"
    by blast
  with d' have 2: "processed c2_silent_done =
      processed c2_bus @ pattempted c2_silent_proc (queue c2_bus)"
    "queue c2_silent_done = drop (length (pattempted c2_silent_proc (queue c2_bus))) (queue c2_bus)"
    "emitted c2_silent_done = emitted c2_bus" "delivered c2_silent_done = delivered c2_bus"
    by simp_all
  have a: "pattempted c2_silent_proc (queue c2_bus) = [(Str ''a'', 1), (Str ''b'', 2)]"
    unfolding q by (simp add: praises_def c2_silent_proc_def)
  have d'': "drain c2_prog (Some c2_emitting_proc) c2_bus = Some (Normal, c2_emitting_done)"
    by code_simp
  have p'': "processed c2_emitting_done = [(Str ''a'', 1), (Str ''b'', 2)]" by code_simp
  from drain_processes_queue_in_order[where prog = c2_prog and s = c2_bus
      and f = c2_emitting_proc and c = Normal and s' = c2_emitting_done,
      THEN conjunct2, THEN conjunct2, THEN conjunct2, THEN conjunct1, THEN mp, OF d'']
  have 3: "emitted c2_emitting_done = [(Str ''x'', 1), (Str ''x'', 2)]"
    by (simp add: p p'' m c2_emitting_proc_def)
  show ?thesis using d d' d'' 1 2 3 unfolding a by (simp add: q p m l p'')
qed

theorem raising_processor_stops_drain:
  "queue c2_bus = [(Str ''a'', 1), (Str ''b'', 2)] \<and>
   drain c2_prog (Some c2_raising_proc) c2_bus = Some (Thrown, c2_stopped) \<and>
   queue c2_stopped = [(Str ''b'', 2)] \<and> processed c2_stopped = [(Str ''a'', 1)]"
  by code_simp

text \<open>
  C3 (amended). Every call of \<^verbatim>\<open>clear\<close> invokes the transport's \<^verbatim>\<open>close\<close> once, and nothing
  else invokes it: over any sequence of calls of the bus, also those made by handlers and
  processors, \<^verbatim>\<open>close\<close> is invoked as many times as \<^verbatim>\<open>clear\<close> is called. A second
  \<^verbatim>\<open>clear\<close> in a row changes nothing but these two counts.
\<close>

theorem close_once_per_clear:
  "closes (clear s) = closes s + 1 \<and>
   clear (clear s) = (clear s)\<lparr>closes := closes s + 2, clears := clears s + 2\<rparr> \<and>
   (run prog calls s = Some r \<longrightarrow> closes (snd r) + clears s = clears (snd r) + closes s)"
proof -
  have "run prog calls s = Some r \<longrightarrow> closes (snd r) + clears s = clears (snd r) + closes s"
    using step_closed_run[OF step_closed_close_balance, of prog calls s r]
    by (simp add: close_balance_def)
  moreover have "clear (clear s) = (clear s)\<lparr>closes := closes s + 2, clears := clears s + 2\<rparr>"
    by (simp add: clear_def close_def Let_def fold_call_tunsub_keeps)
  ultimately show ?thesis by simp
qed

theorem close_once_per_clear_witness:
  "run c3_prog [CallOn (Str ''e'') 0, CallClear, CallEmit (Str ''e'') 1, CallClear, CallClear] createRouteBus
     = Some (Normal, c3_final) \<and>
   clears c3_final = 3 \<and> closes c3_final = 3"
proof -
  have r: "run c3_prog [CallOn (Str ''e'') 0, CallClear, CallEmit (Str ''e'') 1, CallClear, CallClear]
      createRouteBus = Some (Normal, c3_final)"
    by code_simp
  have c: "clears c3_final = 3" by code_simp
  from close_once_per_clear[THEN conjunct2, THEN conjunct2, rule_format, OF r]
  have "closes c3_final + clears (createRouteBus :: nat bus) =
        clears c3_final + closes (createRouteBus :: nat bus)"
    by simp
  then have "closes c3_final = 3" using c by (simp add: createRouteBus_def)
  with r c show ?thesis by simp
qed

theorem close_invoked_twice:
  "closes (clear (clear (createRouteBus :: nat bus))) = 2 \<and>
   map_option (\<lambda>r. closes (snd r)) (run c3_prog [CallClear, CallClear] createRouteBus) = Some 2"
  by code_simp

text \<open>
  C4 (amended). When a handler registered for \<open>E\<close> raises during the dispatch of
  \<^verbatim>\<open>emit(E, P)\<close>, the dispatch ends there (the handlers registered after it are not invoked)
  and the promise of \<^verbatim>\<open>publish\<close> is rejected; \<^verbatim>\<open>emit\<close> catches the rejection, reports it with
  \<^verbatim>\<open>console.error\<close> and returns normally, and so does the default processor of \<^verbatim>\<open>drain\<close>:
  the exception reaches neither the caller of \<^verbatim>\<open>emit\<close> nor the caller of \<^verbatim>\<open>drain\<close>.
\<close>

theorem emit_catches_raising_handler:
  assumes "handlers_of s E = pre @ h # post"
    and "\<forall>h'\<in>set pre. \<not> raises prog P h'"
    and "raises prog P h"
  shows "fst (publish prog E P s) = Thrown \<and>
         fst (emit prog E P s) = Normal \<and>
         fst (run_proc prog None (E, P) s) = Normal \<and>
         delivered (snd (emit prog E P s)) = delivered s @ map (\<lambda>h. (E, h, P)) (pre @ [h]) \<and>
         errors (snd (emit prog E P s)) = errors s + 1"
proof -
  have "fst (publish prog E P s) = Thrown"
    using assms by (simp add: publish_handlers_of dispatch_completion)
  moreover have "delivered (snd (emit prog E P s)) = delivered s @ map (\<lambda>h. (E, h, P)) (pre @ [h])"
    using assms by (simp add: emit_delivered attempted_first_raise)
  moreover have "errors (snd (emit prog E P s)) = errors s + 1"
    using assms by (simp add: emit_errors)
  ultimately show ?thesis by (simp add: run_proc_def)
qed

theorem emit_catches_raising_handler_witness:
  "handlers_of c4_bus (Str ''e'') = [Fn 1, Fn 0, Fn 2] \<and>
   fst (emit c4_prog (Str ''e'') 7 c4_bus) = Normal \<and>
   delivered (snd (emit c4_prog (Str ''e'') 7 c4_bus)) = [(Str ''e'', Fn 1, 7), (Str ''e'', Fn 0, 7)] \<and>
   errors (snd (emit c4_prog (Str ''e'') 7 c4_bus)) = 1"
proof -
  have h: "handlers_of c4_bus (Str ''e'') = [Fn 1] @ Fn 0 # [Fn 2]" by code_simp
  have p: "\<forall>h'\<in>set [Fn 1]. \<not> raises c4_prog 7 h'" by (simp add: c4_prog_def)
  have r: "raises c4_prog 7 (Fn 0)" by (simp add: c4_prog_def)
  have d: "delivered c4_bus = []" and e: "errors c4_bus = 0" by code_simp+
  from emit_catches_raising_handler[OF h p r] show ?thesis
    using h by (simp add: d e)
qed

theorem raising_handler_does_not_reach_caller:
  "raises c4_prog 7 (Fn 0) \<and>
   (Str ''e'', Fn 0, 7) \<in> set (delivered (snd (emit c4_prog (Str ''e'') 7 c4_bus))) \<and>
   fst (emit c4_prog (Str ''e'') 7 c4_bus) = Normal \<and>
   map_option fst (drain c4_prog None (enqueue (Str ''e'') 7 c4_bus)) = Some Normal"
  by code_simp

text \<open>
  C5 (amended). The handlers invoked by an emit of \<open>E\<close> are those of the snapshot taken when
  its dispatch begins, in order, up to the first one that raises, that one included and
  none after it; when none raises they are exactly the snapshot, whatever the handlers
  do to the registrations while they run (unsubscribing themselves or others does not
  prevent a delivery). A handler removed before the emit is not invoked.
\<close>

theorem dispatch_follows_snapshot:
  "invoked_by_emit prog E P s = attempted prog P (handlers_of s E) \<and>
   (handlers_of s E = pre @ h1 # post \<and> (\<forall>h'\<in>set pre. \<not> raises prog P h') \<and>
    raises prog P h1 \<longrightarrow>
      invoked_by_emit prog E P s = pre @ [h1]) \<and>
   (\<exists>rest. handlers_of s E = invoked_by_emit prog E P s @ rest) \<and>
   ((\<forall>h\<in>set (handlers_of s E). \<not> raises prog P h) \<longrightarrow>
      invoked_by_emit prog E P s = handlers_of s E) \<and>
   h \<notin> set (invoked_by_emit prog E P (call_unsub (fst (on E h s0)) s)) \<and>
   h \<notin> set (invoked_by_emit prog E P (call_tunsub (fst (subscribe E h s0)) s))"
proof -
  have "invoked_by_emit prog E P s = attempted prog P (handlers_of s E)"
    by (rule invoked_by_emit_attempted)
  moreover have "handlers_of s E = pre @ h1 # post \<and> (\<forall>h'\<in>set pre. \<not> raises prog P h') \<and>
      raises prog P h1 \<longrightarrow> invoked_by_emit prog E P s = pre @ [h1]"
    by (simp add: invoked_by_emit_attempted attempted_first_raise)
  moreover have "\<exists>rest. handlers_of s E = invoked_by_emit prog E P s @ rest"
    unfolding invoked_by_emit_attempted by (rule attempted_prefix)
  moreover have "(\<forall>h\<in>set (handlers_of s E). \<not> raises prog P h) \<longrightarrow>
      invoked_by_emit prog E P s = handlers_of s E"
    by (simp add: invoked_by_emit_attempted attempted_no_raise)
  moreover have "h \<notin> set (invoked_by_emit prog E P (call_unsub (fst (on E h s0)) s))"
    by (rule not_in_invoked_by_emit) (simp add: handlers_of_call_unsub)
  moreover have "h \<notin> set (invoked_by_emit prog E P (call_tunsub (fst (subscribe E h s0)) s))"
    by (rule not_in_invoked_by_emit) (simp add: handlers_of_call_tunsub)
  ultimately show ?thesis by blast
qed

theorem dispatch_follows_snapshot_witness:
  "handlers_of c5_bus (Str ''e'') = [Fn 0, Fn 1] \<and>
   invoked_by_emit c5_quiet_prog (Str ''e'') 7 c5_bus = [Fn 0, Fn 1] \<and>
   handlers_of (snd (emit c5_quiet_prog (Str ''e'') 7 c5_bus)) (Str ''e'') = [] \<and>
   raises c5_prog 7 (Fn 0) \<and>
   invoked_by_emit c5_prog (Str ''e'') 7 c5_bus = [Fn 0]"
proof -
  have h: "handlers_of c5_bus (Str ''e'') = [Fn 0, Fn 1]" by code_simp
  have a: "handlers_of (snd (emit c5_quiet_prog (Str ''e'') 7 c5_bus)) (Str ''e'') = []" by code_simp
  have r: "\<forall>h\<in>set (handlers_of c5_bus (Str ''e'')). \<not> raises c5_quiet_prog 7 h"
    by (simp add: h c5_quiet_prog_def)
  from dispatch_follows_snapshot[where prog = c5_quiet_prog and E = "Str ''e''" and P = 7
      and s = c5_bus] r
  have 1: "invoked_by_emit c5_quiet_prog (Str ''e'') 7 c5_bus = handlers_of c5_bus (Str ''e'')"
    by blast
  have h': "handlers_of c5_bus (Str ''e'') = [] @ Fn 0 # [Fn 1]" by (simp add: h)
  have t: "raises c5_prog 7 (Fn 0)" by (simp add: c5_prog_def)
  from dispatch_follows_snapshot[where prog = c5_prog and E = "Str ''e''" and P = 7
      and s = c5_bus and pre = "[]" and ?h1.0 = "Fn 0" and post = "[Fn 1]",
      THEN conjunct2, THEN conjunct1] h' t
  have 2: "invoked_by_emit c5_prog (Str ''e'') 7 c5_bus = [Fn 0]" by simp
  show ?thesis using 1 2 t by (simp add: h a)
qed

theorem raising_handler_cuts_snapshot:
  "handlers_of c5_bus (Str ''e'') = [Fn 0, Fn 1] \<and> invoked_by_emit c5_prog (Str ''e'') 7 c5_bus = [Fn 0]"
  by code_simp

text \<open>
  C6. A handler registered with \<^verbatim>\<open>once\<close> that raises on its first invocation is invoked
  again by the next emit: the wrapper calls \<^verbatim>\<open>unsubscribe\<close> only after the handler has
  returned, so the exception skips it and the wrapper stays registered. (For a handler
  that never raises and calls neither \<^verbatim>\<open>emit\<close> nor \<^verbatim>\<open>drain\<close> itself, the wrapper
  fires at most once, and a wrapper unsubscribed before any emit never fires: see the two
  lemmas that close the section on the wrapper.)
\<close>

theorem once_handler_that_raises_fires_again:
  "raises c6_prog 1 (Fn 0) \<and>
   handlers_of c6_bus (Str ''e'') = [OnceWrapper 0 0] \<and>
   invocations 0 (snd (emit c6_prog (Str ''e'') 2 (snd (emit c6_prog (Str ''e'') 1 c6_bus)))) = [1, 2] \<and>
   delivered (snd (emit c6_prog (Str ''e'') 2 (snd (emit c6_prog (Str ''e'') 1 c6_bus)))) =
     [(Str ''e'', OnceWrapper 0 0, 1), (Str ''e'', OnceWrapper 0 0, 2)] \<and>
   handlers_of (snd (emit c6_prog (Str ''e'') 2 (snd (emit c6_prog (Str ''e'') 1 c6_bus)))) (Str ''e'') =
     [OnceWrapper 0 0]"
  by code_simp

text \<open>
  C7. The function returned by \<^verbatim>\<open>on(E, h)\<close> does not remove only its own registration
  when another event has the same \<^verbatim>\<open>String()\<close> as \<open>E\<close>. Two symbols made with the
  description \<^verbatim>\<open>x\<close> are different events with the one key \<^verbatim>\<open>Symbol(x)\<close>. After
  \<^verbatim>\<open>u = on(a, h)\<close> and \<^verbatim>\<open>on(b, h)\<close> the entry under that key and \<open>h\<close> is the one of
  \<open>(b, h)\<close>; the call \<^verbatim>\<open>u()\<close> detaches \<open>h\<close> from \<open>a\<close>, as it should, and deletes that
  entry: \<open>h\<close> is still subscribed to \<open>b\<close>, its registration is gone from the registry,
  \<^verbatim>\<open>off(b, h)\<close> no longer finds it, and an emit of \<open>b\<close> still invokes \<open>h\<close>.
\<close>

theorem unsubscribe_deletes_entry_of_other_event:
  "Sym 0 ''x'' \<noteq> Sym 1 ''x'' \<and>
   getEventKey (Sym 0 ''x'') = getEventKey (Sym 1 ''x'') \<and>
   handlers_of c7_bus (Sym 0 ''x'') = [Fn 0] \<and>
   handlers_of c7_bus (Sym 1 ''x'') = [Fn 0] \<and>
   registered c7_bus (Sym 1 ''x'') (Fn 0) = Some (TransportUnsub (Sym 1 ''x'') (Fn 0)) \<and>
   handlers_of (call_unsub c7_unsubscribe c7_bus) (Sym 0 ''x'') = [] \<and>
   handlers_of (call_unsub c7_unsubscribe c7_bus) (Sym 1 ''x'') = [Fn 0] \<and>
   registered (call_unsub c7_unsubscribe c7_bus) (Sym 1 ''x'') (Fn 0) = None \<and>
   off (Sym 1 ''x'') (Fn 0) (call_unsub c7_unsubscribe c7_bus) = call_unsub c7_unsubscribe c7_bus \<and>
   invoked_by_emit c7_prog (Sym 1 ''x'') 7
     (off (Sym 1 ''x'') (Fn 0) (call_unsub c7_unsubscribe c7_bus)) = [Fn 0]"
  by code_simp

text \<open>
  C8. \<^verbatim>\<open>off(E, h)\<close> looks the registration up under \<^verbatim>\<open>String(E)\<close> and so takes the one of
  another event with the same key for that of \<open>E\<close>. With two symbols \<open>a\<close> and \<open>b\<close> made
  with the description \<^verbatim>\<open>x\<close>: after \<^verbatim>\<open>on(a, h)\<close> and \<^verbatim>\<open>on(b, h)\<close>, the call
  \<^verbatim>\<open>off(a, h)\<close> detaches \<open>h\<close> from \<open>b\<close> and leaves it attached to \<open>a\<close>, where an emit
  still invokes it; and after \<^verbatim>\<open>on(b, h)\<close> alone, \<^verbatim>\<open>off(a, h)\<close>, for a pair that was never
  registered, removes the registration of \<open>(b, h)\<close>. The number 1 and the string
  \<^verbatim>\<open>'1'\<close> do the same.
\<close>

theorem off_detaches_registration_of_other_event:
  "Sym 0 ''x'' \<noteq> Sym 1 ''x'' \<and>
   getEventKey (Sym 0 ''x'') = getEventKey (Sym 1 ''x'') \<and>
   handlers_of c8_both (Sym 0 ''x'') = [Fn 0] \<and>
   handlers_of c8_both (Sym 1 ''x'') = [Fn 0] \<and>
   handlers_of (off (Sym 0 ''x'') (Fn 0) c8_both) (Sym 0 ''x'') = [Fn 0] \<and>
   handlers_of (off (Sym 0 ''x'') (Fn 0) c8_both) (Sym 1 ''x'') = [] \<and>
   invoked_by_emit c8_prog (Sym 0 ''x'') 7 (off (Sym 0 ''x'') (Fn 0) c8_both) = [Fn 0] \<and>
   handlers_of c8_other (Sym 0 ''x'') = [] \<and>
   handlers_of c8_other (Sym 1 ''x'') = [Fn 0] \<and>
   handlers_of (off (Sym 0 ''x'') (Fn 0) c8_other) (Sym 1 ''x'') = [] \<and>
   registered (off (Sym 0 ''x'') (Fn 0) c8_other) (Sym 1 ''x'') (Fn 0) = None \<and>
   getEventKey (Num 1) = getEventKey (Str ''1'') \<and>
   handlers_of (off (Num 1) (Fn 0) c8_number) (Num 1) = [Fn 0] \<and>
   handlers_of (off (Num 1) (Fn 0) c8_number) (Str ''1'') = []"
  by code_simp



text \<open>
  C10. A function returned by \<^verbatim>\<open>on(E, h)\<close> is not inert once \<open>h\<close> has been registered
  again: after \<^verbatim>\<open>u1 = on(E, h)\<close>, then \<^verbatim>\<open>u1()\<close> (or \<^verbatim>\<open>off(E, h)\<close>, which does the same),
  then \<^verbatim>\<open>on(E, h)\<close> again, \<open>h\<close> is registered; a further call of the old \<^verbatim>\<open>u1\<close> removes that
  new registration from the transport's set and from the registry, and an emit of \<open>E\<close> no
  longer invokes \<open>h\<close>. The old and the new function captured the same event and handler.
\<close>

theorem stale_unsubscribe_removes_new_registration:
  "(let (u1, s1) = on E h s;
        s2 = call_unsub u1 s1;
        (u2, s3) = on E h s2;
        s4 = call_unsub u1 s3
    in off E h s1 = s2 \<and> u2 = u1 \<and>
       h \<in> set (handlers_of s3 E) \<and> registered s3 E h = Some (TransportUnsub E h) \<and>
       h \<notin> set (handlers_of s4 E) \<and> registered s4 E h = None \<and>
       h \<notin> set (invoked_by_emit prog E P s4))"
proof -
  let ?u = "BusUnsub (TransportUnsub E h) (getEventKey E) h"
  let ?s1 = "snd (on E h s)"
  let ?s2 = "call_unsub ?u ?s1"
  let ?s3 = "snd (on E h ?s2)"
  let ?s4 = "call_unsub ?u ?s3"
  have "registered ?s1 E h = Some (TransportUnsub E h)" by (simp add: registered_on)
  then have a: "off E h ?s1 = ?s2" by (simp add: off_registered)
  have b: "h \<in> set (handlers_of ?s3 E)" by (simp add: handlers_of_on set_add_def)
  have c: "registered ?s3 E h = Some (TransportUnsub E h)" by (simp add: registered_on)
  have d: "h \<notin> set (handlers_of ?s4 E)" by (simp add: handlers_of_call_unsub)
  have e: "registered ?s4 E h = None" by (simp add: registered_call_unsub)
  have f: "h \<notin> set (invoked_by_emit prog E P ?s4)"
    using d by (rule not_in_invoked_by_emit)
  show ?thesis using a b c d e f by (simp add: split_beta Let_def)
qed

end
